theory Spec2Isabelle
  imports Main "HOL-Library.Word" "HOL-Library.AList"
begin

section \<open>The world the patcher runs in\<close>

text \<open>
  \<^verbatim>\<open>patch_money_dll.py\<close> reads and writes single bytes of one file, copies that file
  to a backup and back, reads answers from standard input and prints progress lines.
  All of that is state here: a file system (an association list from paths to files, so
  it is finite as a real one is), the command line, the answers waiting on standard
  input, and a chronological trace of what the run printed, read, wrote and copied.
  What the script does not decide is state too: whether the operating system lets a new
  file be created at a path, after how many bytes it stops a copy to a path, and what
  other programs do to the files while the script waits for an answer.
\<close>

type_synonym byte = "8 word"

record fnode =
  content :: "byte list"
  readable :: bool
  writable :: bool

type_synonym filesystem = "(string \<times> fnode) list"

text \<open>Python exceptions the script can meet; all of them are subclasses of Exception.\<close>

datatype error =
  FileNotFoundError | PermissionError | IndexError | EOFError | OSError | SameFileError

text \<open>
  How a call ends: it returns a value, it raises, or it calls \<^verbatim>\<open>sys.exit(code)\<close>.
  \<^verbatim>\<open>SystemExit\<close> is not an \<^verbatim>\<open>Exception\<close>, so the handler of main does not catch it.
\<close>

datatype 'a outcome = Return 'a | Raise error | Exit nat

text \<open>
  One constructor per message the script prints, with the values it formats; the
  consecutive print statements of one message (the help after a failed search, the three
  lines of the success report) are one constructor.
\<close>

datatype message =
    Banner
  | Rule
  | Warn_small nat
  | Warn_unexpected int nat byte byte byte
  | Backup_created string
  | Err_verification int byte nat byte
  | Patch_changed int nat byte byte
  | Not_found_help
  | Target_file string
  | Warn_no_match
  | Aborted
  | All_applied
  | Found_applied nat
  | Found_needed nat
  | Will_modify
  | Applying nat
  | Completed string
  | Patching_failed
  | Restored
  | Error_line error

datatype prompt = Continue_anyway | Continue_plain

datatype event =
    Print message
  | Input prompt string
  | Write string nat byte
  | Copy string string
  | Copy_broke string string

record world =
  argv :: "string list"
  stdin :: "string list"
  fs :: filesystem
  creatable :: "string \<Rightarrow> bool"
  write_limit :: "string \<Rightarrow> nat option"
  meanwhile :: "filesystem \<Rightarrow> filesystem"
  trace :: "event list"

definition print :: "message \<Rightarrow> world \<Rightarrow> world" where
  "print m w = w\<lparr>trace := trace w @ [Print m]\<rparr>"

definition then_do ::
  "'a outcome \<times> world \<Rightarrow> ('a \<Rightarrow> world \<Rightarrow> 'b outcome \<times> world) \<Rightarrow> 'b outcome \<times> world" where
  "then_do r k =
     (case r of
        (Return x, w) \<Rightarrow> k x w
      | (Raise e, w) \<Rightarrow> (Raise e, w)
      | (Exit c, w) \<Rightarrow> (Exit c, w))"

subsection \<open>Operating-system calls\<close>

definition path_exists :: "filesystem \<Rightarrow> string \<Rightarrow> bool" where
  "path_exists fsys p = (map_of fsys p \<noteq> None)"

text \<open>\<^verbatim>\<open>open(path, 'rb')\<close> and \<^verbatim>\<open>open(path, 'r+b')\<close>: neither creates nor truncates.\<close>

definition open_rb :: "string \<Rightarrow> world \<Rightarrow> error option" where
  "open_rb p w =
     (case map_of (fs w) p of
        None \<Rightarrow> Some FileNotFoundError
      | Some f \<Rightarrow> if readable f then None else Some PermissionError)"

definition open_rpb :: "string \<Rightarrow> world \<Rightarrow> error option" where
  "open_rpb p w =
     (case map_of (fs w) p of
        None \<Rightarrow> Some FileNotFoundError
      | Some f \<Rightarrow> if readable f \<and> writable f then None else Some PermissionError)"

text \<open>\<^verbatim>\<open>f.seek(offset); f.read(1)\<close>: at or past the end of the file the read is empty.\<close>

definition seek_read1 :: "string \<Rightarrow> nat \<Rightarrow> world \<Rightarrow> byte list" where
  "seek_read1 p offset w =
     (case map_of (fs w) p of
        None \<Rightarrow> []
      | Some f \<Rightarrow> take 1 (drop offset (content f)))"

text \<open>\<^verbatim>\<open>bs[0]\<close> on a bytes object.\<close>

definition first_byte :: "byte list \<Rightarrow> error + byte" where
  "first_byte bs = (case bs of [] \<Rightarrow> Inl IndexError | b # _ \<Rightarrow> Inr b)"

text \<open>
  \<^verbatim>\<open>f.seek(offset); f.write(bytes([b]))\<close>: one byte is replaced; a write past the end
  would extend the file with zero bytes first.
\<close>

definition write_at :: "byte list \<Rightarrow> nat \<Rightarrow> byte \<Rightarrow> byte list" where
  "write_at bs offset b =
     (if offset < length bs then bs[offset := b]
      else bs @ replicate (offset - length bs) 0 @ [b])"

definition seek_write1 :: "string \<Rightarrow> nat \<Rightarrow> byte \<Rightarrow> world \<Rightarrow> world" where
  "seek_write1 p offset b w =
     (case map_of (fs w) p of
        None \<Rightarrow> w
      | Some f \<Rightarrow>
          w\<lparr>fs := AList.update p (f\<lparr>content := write_at (content f) offset b\<rparr>) (fs w),
            trace := trace w @ [Write p offset b]\<rparr>)"

text \<open>
  \<^verbatim>\<open>shutil.copy2(src, dst)\<close> opens the source for reading and the destination for
  writing, which creates the destination or empties it; then it copies the bytes, and
  last the metadata. The operating system may refuse to create a new file (directory
  permissions: the field \<open>creatable\<close> of the world), and it may stop the writing after
  some bytes (a full disk, a quota: the field \<open>write_limit\<close>). A copy stopped part-way
  raises and leaves what it wrote: the destination holds a prefix of the source and has
  none of its metadata yet. The trace records a whole copy as \<open>Copy\<close> and a stopped one
  as \<open>Copy_broke\<close>.
\<close>

definition write_copy ::
  "string \<Rightarrow> string \<Rightarrow> fnode \<Rightarrow> fnode \<Rightarrow> world \<Rightarrow> unit outcome \<times> world" where
  "write_copy src dst f g w =
     (let whole = (Return (), w\<lparr>fs := AList.update dst f (fs w),
                                 trace := trace w @ [Copy src dst]\<rparr>)
      in case write_limit w dst of
           None \<Rightarrow> whole
         | Some n \<Rightarrow>
             if length (content f) \<le> n then whole
             else (Raise OSError,
                   w\<lparr>fs := AList.update dst (g\<lparr>content := take n (content f)\<rparr>) (fs w),
                     trace := trace w @ [Copy_broke src dst]\<rparr>))"

definition copy2 :: "string \<Rightarrow> string \<Rightarrow> world \<Rightarrow> unit outcome \<times> world" where
  "copy2 src dst w =
     (case map_of (fs w) src of
        None \<Rightarrow> (Raise FileNotFoundError, w)
      | Some f \<Rightarrow>
          if src = dst then (Raise SameFileError, w)
          else if \<not> readable f then (Raise PermissionError, w)
          else
            (case map_of (fs w) dst of
               None \<Rightarrow>
                 if creatable w dst
                 then write_copy src dst f \<lparr>content = [], readable = True, writable = True\<rparr> w
                 else (Raise OSError, w)
             | Some g \<Rightarrow>
                 if writable g then write_copy src dst f g w
                 else (Raise PermissionError, w)))"

text \<open>
  \<^verbatim>\<open>input(prompt)\<close>: one line of standard input, EOFError when there is none. The script
  waits for the line, and other programs run in the meantime: what they do to the files is
  the field \<open>meanwhile\<close> of the world.
\<close>

definition input :: "prompt \<Rightarrow> world \<Rightarrow> string outcome \<times> world" where
  "input q w =
     (case stdin w of
        [] \<Rightarrow> (Raise EOFError, w)
      | r # rest \<Rightarrow>
          (Return r, w\<lparr>stdin := rest, fs := meanwhile w (fs w),
                       trace := trace w @ [Input q r]\<rparr>))"

text \<open>\<^verbatim>\<open>str.lower()\<close> on ASCII text.\<close>

definition lower_char :: "char \<Rightarrow> char" where
  "lower_char c =
     (let n = (of_char c :: nat) in if 65 \<le> n \<and> n \<le> 90 then char_of (n + 32) else c)"

definition lower :: "string \<Rightarrow> string" where
  "lower s = map lower_char s"

text \<open>\<^verbatim>\<open>xs[i]\<close> on a Python list: a negative index counts from the end.\<close>

definition py_index :: "'a list \<Rightarrow> int \<Rightarrow> 'a option" where
  "py_index xs i =
     (let n = int (length xs); j = (if i < 0 then n + i else i)
      in if 0 \<le> j \<and> j < n then Some (xs ! nat j) else None)"

definition enumerate_py :: "'a list \<Rightarrow> (int \<times> 'a) list" where
  "enumerate_py xs = zip (map int [0..<length xs]) xs"

text \<open>The decimal numeral an f-string prints for a non-negative counter.\<close>

definition digit_char :: "nat \<Rightarrow> char" where
  "digit_char d = char_of (48 + d)"

function str_nat :: "nat \<Rightarrow> string" where
  "str_nat n = (if n < 10 then [digit_char n] else str_nat (n div 10) @ [digit_char (n mod 10)])"
  by pat_completeness auto
termination
  by (relation "measure id") auto

declare str_nat.simps [simp del]

lemma digit_char_inj: "a < 10 \<Longrightarrow> b < 10 \<Longrightarrow> digit_char a = digit_char b \<Longrightarrow> a = b"
proof -
  assume a: "a < 10" and b: "b < 10" and e: "digit_char a = digit_char b"
  from e have "(of_char (char_of (48 + a) :: char) :: nat) = of_char (char_of (48 + b) :: char)"
    by (simp add: digit_char_def)
  with a b show "a = b" by simp
qed

lemma str_nat_nonempty: "str_nat n \<noteq> []" "[] \<noteq> str_nat n"
  by (subst str_nat.simps, simp)+

lemma str_nat_inj: "str_nat n = str_nat m \<Longrightarrow> n = m"
proof (induction n arbitrary: m rule: str_nat.induct)
  case (1 n)
  show ?case
  proof (cases "n < 10")
    case True
    then have sn: "str_nat n = [digit_char n]" by (subst str_nat.simps) simp
    show ?thesis
    proof (cases "m < 10")
      case True
      then have "str_nat m = [digit_char m]" by (subst str_nat.simps) simp
      with sn "1.prems" have "digit_char n = digit_char m" by simp
      with \<open>n < 10\<close> True show ?thesis by (rule digit_char_inj)
    next
      case False
      then have "str_nat m = str_nat (m div 10) @ [digit_char (m mod 10)]"
        by (subst str_nat.simps) simp
      with sn "1.prems" show ?thesis by (simp add: str_nat_nonempty)
    qed
  next
    case False
    then have sn: "str_nat n = str_nat (n div 10) @ [digit_char (n mod 10)]"
      by (subst str_nat.simps) simp
    show ?thesis
    proof (cases "m < 10")
      case True
      then have "str_nat m = [digit_char m]" by (subst str_nat.simps) simp
      with sn "1.prems" show ?thesis by (simp add: str_nat_nonempty)
    next
      case m: False
      then have "str_nat m = str_nat (m div 10) @ [digit_char (m mod 10)]"
        by (subst str_nat.simps) simp
      with sn "1.prems" have e1: "str_nat (n div 10) = str_nat (m div 10)"
        and e2: "digit_char (n mod 10) = digit_char (m mod 10)" by simp_all
      from "1.IH" [OF False e1] have d: "n div 10 = m div 10" .
      have "n mod 10 = m mod 10" by (rule digit_char_inj [OF _ _ e2]) simp_all
      with d show ?thesis by (metis div_mult_mod_eq)
    qed
  qed
qed

section \<open>The script\<close>

definition PATCHES :: "(nat \<times> byte \<times> byte) list" where
  "PATCHES =
     [(0x003FACE8, 0x85, 0x8D),
      (0x003FACED, 0x50, 0x51),
      (0x003FACF0, 0xFF, 0x85),
      (0x003FACF6, 0xE8, 0xB9)]"

definition validate_file :: "string \<Rightarrow> world \<Rightarrow> unit outcome \<times> world" where
  "validate_file file_path w =
     (case map_of (fs w) file_path of
        None \<Rightarrow> (Raise FileNotFoundError, w)
      | Some f \<Rightarrow>
          if \<not> (readable f \<and> writable f) then (Raise PermissionError, w)
          else
            (let file_size = length (content f)
             in if file_size < 1000000 then (Return (), print (Warn_small file_size) w)
                else (Return (), w)))"

fun verify_loop ::
  "string \<Rightarrow> (int \<times> nat \<times> byte \<times> byte) list \<Rightarrow> int list \<Rightarrow> int list \<Rightarrow> world
     \<Rightarrow> (int list \<times> int list) outcome \<times> world" where
  "verify_loop file_path [] patches_needed patches_already_applied w =
     (Return (patches_needed, patches_already_applied), w)"
| "verify_loop file_path ((i, offset, original_byte, new_byte) # rest)
       patches_needed patches_already_applied w =
     (case first_byte (seek_read1 file_path offset w) of
        Inl e \<Rightarrow> (Raise e, w)
      | Inr current_byte \<Rightarrow>
          if current_byte = original_byte
          then verify_loop file_path rest (patches_needed @ [i]) patches_already_applied w
          else if current_byte = new_byte
          then verify_loop file_path rest patches_needed (patches_already_applied @ [i]) w
          else verify_loop file_path rest patches_needed patches_already_applied
                 (print (Warn_unexpected (i + 1) offset current_byte original_byte new_byte) w))"

definition verify_patches ::
  "string \<Rightarrow> world \<Rightarrow> (int list \<times> int list) outcome \<times> world" where
  "verify_patches file_path w =
     (case open_rb file_path w of
        Some e \<Rightarrow> (Raise e, w)
      | None \<Rightarrow> verify_loop file_path (enumerate_py PATCHES) [] [] w)"

function backup_loop :: "filesystem \<Rightarrow> string \<Rightarrow> string \<Rightarrow> nat \<Rightarrow> string" where
  "backup_loop fsys file_path backup_path counter =
     (if path_exists fsys backup_path
      then backup_loop fsys file_path (file_path @ ''.backup.'' @ str_nat counter) (counter + 1)
      else backup_path)"
  by pat_completeness auto

text \<open>
  The loop ends because the numbered names are pairwise different and the file system is
  finite: each round uses up one of the finitely many numbered names that exist.
\<close>

lemma numbered_names_finite:
  "finite {n. path_exists fsys (fp @ ''.backup.'' @ str_nat n)}"
proof -
  have "inj (\<lambda>n. fp @ ''.backup.'' @ str_nat n)"
    by (auto simp: inj_on_def dest: str_nat_inj)
  then have "finite ((\<lambda>n. fp @ ''.backup.'' @ str_nat n) -` dom (map_of fsys))"
    by (intro finite_vimageI) (simp_all add: finite_dom_map_of)
  moreover have "{n. path_exists fsys (fp @ ''.backup.'' @ str_nat n)} =
      (\<lambda>n. fp @ ''.backup.'' @ str_nat n) -` dom (map_of fsys)"
    by (auto simp: path_exists_def)
  ultimately show ?thesis by simp
qed

termination backup_loop
proof (relation "measure (\<lambda>(fsys, fp, bp, c).
          card {n. c \<le> n \<and> path_exists fsys (fp @ ''.backup.'' @ str_nat n)}
          + (if path_exists fsys bp then 1 else 0))", goal_cases)
  case 1
  show ?case by simp
next
  case (2 fsys fp bp c)
  let ?S = "\<lambda>c. {n. c \<le> n \<and> path_exists fsys (fp @ ''.backup.'' @ str_nat n)}"
  have fin: "finite (?S k)" for k
    by (rule finite_subset [OF _ numbered_names_finite [of fsys fp]]) auto
  show ?case
  proof (cases "path_exists fsys (fp @ ''.backup.'' @ str_nat c)")
    case True
    have "?S c = insert c (?S (c + 1))"
      using True by (auto simp: le_Suc_eq Suc_le_eq order_less_le)
    moreover have "c \<notin> ?S (c + 1)" by simp
    ultimately have "card (?S c) = Suc (card (?S (c + 1)))"
      using fin [of "c + 1"] by (simp del: One_nat_def)
    with 2 True show ?thesis by simp
  next
    case False
    have "?S c = ?S (c + 1)"
    proof (intro set_eqI iffI)
      fix n assume "n \<in> ?S c"
      with False have "n \<noteq> c" by auto
      with \<open>n \<in> ?S c\<close> show "n \<in> ?S (c + 1)" by auto
    qed auto
    with 2 False show ?thesis by simp
  qed
qed

declare backup_loop.simps [simp del]

definition create_backup :: "string \<Rightarrow> world \<Rightarrow> string outcome \<times> world" where
  "create_backup file_path w =
     (let backup_path = backup_loop (fs w) file_path (file_path @ ''.backup'') 1
      in then_do (copy2 file_path backup_path w)
           (\<lambda>_ w'. (Return backup_path, print (Backup_created backup_path) w')))"

fun apply_loop :: "string \<Rightarrow> int list \<Rightarrow> world \<Rightarrow> bool outcome \<times> world" where
  "apply_loop file_path [] w = (Return True, w)"
| "apply_loop file_path (patch_index # rest) w =
     (case py_index PATCHES patch_index of
        None \<Rightarrow> (Raise IndexError, w)
      | Some (offset, original_byte, new_byte) \<Rightarrow>
          (case first_byte (seek_read1 file_path offset w) of
             Inl e \<Rightarrow> (Raise e, w)
           | Inr current_byte \<Rightarrow>
               if current_byte \<noteq> original_byte
               then (Return False,
                     print (Err_verification (patch_index + 1) original_byte offset current_byte) w)
               else apply_loop file_path rest
                      (print (Patch_changed (patch_index + 1) offset original_byte new_byte)
                         (seek_write1 file_path offset new_byte w))))"

definition apply_patches :: "string \<Rightarrow> int list \<Rightarrow> world \<Rightarrow> bool outcome \<times> world" where
  "apply_patches file_path patches_to_apply w =
     (case open_rpb file_path w of
        Some e \<Rightarrow> (Raise e, w)
      | None \<Rightarrow> apply_loop file_path patches_to_apply w)"

definition bslash :: string where
  "bslash = [CHR 0x5C]"

definition common_paths :: "string list" where
  "common_paths =
     [''C:'' @ bslash @ ''Program Files (x86)'' @ bslash @ ''Microsoft Money Plus'' @ bslash
        @ ''MNYCoreFiles'' @ bslash @ ''mnyob99.dll'',
      ''C:'' @ bslash @ ''Program Files'' @ bslash @ ''Microsoft Money Plus'' @ bslash
        @ ''MNYCoreFiles'' @ bslash @ ''mnyob99.dll'',
      ''.'' @ bslash @ ''mnyob99.dll'']"

definition find_money_dll :: "world \<Rightarrow> string option" where
  "find_money_dll w = find (path_exists (fs w)) common_paths"

text \<open>
  Lines 119 to 122 of main: the path given on the command line, or else the first common
  location that exists.
\<close>

definition target_path :: "world \<Rightarrow> string option" where
  "target_path w = (if length (argv w) > 1 then Some (argv w ! 1) else find_money_dll w)"

text \<open>
  Lines 165 to 180 of main: the backup, the patches, and on failure the copy of the
  backup back over the target followed by \<^verbatim>\<open>sys.exit(1)\<close>.
\<close>

definition patch_phase :: "string \<Rightarrow> int list \<Rightarrow> world \<Rightarrow> unit outcome \<times> world" where
  "patch_phase dll_path patches_needed w =
     then_do (create_backup dll_path w) (\<lambda>backup_path w1.
     then_do (apply_patches dll_path patches_needed
                (print (Applying (length patches_needed)) w1)) (\<lambda>success w2.
       if success then (Return (), print (Completed backup_path) w2)
       else then_do (copy2 backup_path dll_path (print Patching_failed w2))
              (\<lambda>_ w3. (Exit 1, print Restored w3))))"

text \<open>The body of the try block of main, lines 136 to 180.\<close>

definition main_try :: "string \<Rightarrow> world \<Rightarrow> unit outcome \<times> world" where
  "main_try dll_path w =
     then_do (validate_file dll_path w) (\<lambda>_ w1.
     then_do (verify_patches dll_path w1) (\<lambda>(patches_needed, patches_applied) w2.
     then_do
       (if patches_needed = [] \<and> patches_applied = []
        then then_do (input Continue_anyway (print Warn_no_match w2))
               (\<lambda>response w'.
                  if lower response \<noteq> ''y'' then (Exit 0, print Aborted w')
                  else (Return (), w'))
        else (Return (), w2)) (\<lambda>_ w3.
       if patches_needed = [] then (Exit 0, print All_applied w3)
       else
         (let w4 = (if patches_applied \<noteq> []
                    then print (Found_applied (length patches_applied)) w3 else w3);
              w5 = print Will_modify (print (Found_needed (length patches_needed)) w4)
          in then_do (input Continue_plain w5)
               (\<lambda>response w6.
                  if lower response \<noteq> ''y'' then (Exit 0, print Aborted w6)
                  else patch_phase dll_path patches_needed w6)))))"

text \<open>
  main returns the exit code of the process and the world it leaves: 0 when main returns
  normally, the argument of \<^verbatim>\<open>sys.exit\<close> otherwise, 1 from the exception handler.
\<close>

definition main :: "world \<Rightarrow> nat \<times> world" where
  "main w0 =
     (let w = print Rule (print Banner w0)
      in case target_path w of
           None \<Rightarrow> (1, print Not_found_help w)
         | Some dll_path \<Rightarrow>
             (case main_try dll_path (print (Target_file dll_path) w) of
                (Return _, w') \<Rightarrow> (0, w')
              | (Raise e, w') \<Rightarrow> (1, print (Error_line e) w')
              | (Exit c, w') \<Rightarrow> (c, w')))"

section \<open>Notions the statements use\<close>

text \<open>The fields of the patch a Python index selects.\<close>

definition offset_of :: "int \<Rightarrow> nat" where
  "offset_of i = (case py_index PATCHES i of Some (off, ob, nb) \<Rightarrow> off | None \<Rightarrow> 0)"

definition original_of :: "int \<Rightarrow> byte" where
  "original_of i = (case py_index PATCHES i of Some (off, ob, nb) \<Rightarrow> ob | None \<Rightarrow> 0)"

definition replacement_of :: "int \<Rightarrow> byte" where
  "replacement_of i = (case py_index PATCHES i of Some (off, ob, nb) \<Rightarrow> nb | None \<Rightarrow> 0)"

text \<open>
  The classification of section 3 of the specification: a byte that matches the original
  needs the patch, one that matches the replacement has it, any other is unexpected.
\<close>

datatype patch_state = NeedsApply | AlreadyApplied | Unexpected

definition classify_byte :: "int \<Rightarrow> byte \<Rightarrow> patch_state" where
  "classify_byte i b =
     (if b = original_of i then NeedsApply
      else if b = replacement_of i then AlreadyApplied
      else Unexpected)"

text \<open>A file of zero bytes, the background of the concrete files below.\<close>

definition blank :: "nat \<Rightarrow> byte list" where
  "blank n = replicate n 0"

definition mixed_world :: world where
  "mixed_world =
     \<lparr>argv = [''patch_money_dll.py'', ''mnyob99.dll''], stdin = [''y''],
      fs = [(''mnyob99.dll'',
             \<lparr>content = (blank 4173047)[0x003FACE8 := 0x85, 0x003FACED := 0x51, 0x003FACF6 := 0xE8],
              readable = True, writable = True\<rparr>)],
      creatable = (\<lambda>_. True), write_limit = (\<lambda>_. None),
      meanwhile = (\<lambda>fsys. fsys), trace = []\<rparr>"

text \<open>The bytes a trace wrote, in the order it wrote them.\<close>

fun writes_of :: "event list \<Rightarrow> (string \<times> nat \<times> byte) list" where
  "writes_of [] = []"
| "writes_of (Write p offset b # es) = (p, offset, b) # writes_of es"
| "writes_of (e # es) = writes_of es"

text \<open>A content after the replacement bytes of a list of patch indices were stored, first to last.\<close>

definition patched :: "int list \<Rightarrow> byte list \<Rightarrow> byte list" where
  "patched idxs c = fold (\<lambda>i c. c[offset_of i := replacement_of i]) idxs c"

text \<open>
  A file whose byte at the third offset is neither the original nor the replacement,
  while the other three offsets hold their original bytes.
\<close>

definition stale_file :: fnode where
  "stale_file =
     \<lparr>content = (blank 4173047)[0x003FACE8 := 0x85, 0x003FACED := 0x50,
                                 0x003FACF0 := 0x42, 0x003FACF6 := 0xE8],
      readable = True, writable = True\<rparr>"

definition stale_world :: world where
  "stale_world =
     \<lparr>argv = [''patch_money_dll.py'', ''mnyob99.dll''], stdin = [''y''],
      fs = [(''mnyob99.dll'', stale_file)],
      creatable = (\<lambda>_. True), write_limit = (\<lambda>_. None),
      meanwhile = (\<lambda>fsys. fsys), trace = []\<rparr>"

text \<open>
  The sequence of backup names of the specification: \<^verbatim>\<open><file>.backup\<close>, then
  \<^verbatim>\<open><file>.backup.1\<close>, \<^verbatim>\<open><file>.backup.2\<close> and so on.
\<close>

definition backup_name :: "string \<Rightarrow> nat \<Rightarrow> string" where
  "backup_name file_path k =
     (if k = 0 then file_path @ ''.backup'' else file_path @ ''.backup.'' @ str_nat k)"

definition crowded_fs :: filesystem where
  "crowded_fs =
     [(''m.dll'', \<lparr>content = [1, 2, 3], readable = True, writable = True\<rparr>),
      (''m.dll.backup'', \<lparr>content = [4], readable = True, writable = True\<rparr>),
      (''m.dll.backup.1'', \<lparr>content = [5], readable = True, writable = True\<rparr>)]"

definition crowded_world :: world where
  "crowded_world =
     \<lparr>argv = [''patch_money_dll.py'', ''m.dll''], stdin = [], fs = crowded_fs,
      creatable = (\<lambda>_. True), write_limit = (\<lambda>_. None),
      meanwhile = (\<lambda>fsys. fsys), trace = []\<rparr>"

text \<open>A world after it printed a list of messages.\<close>

definition says :: "message list \<Rightarrow> world \<Rightarrow> world" where
  "says ms w = w\<lparr>trace := trace w @ map Print ms\<rparr>"

text \<open>
  The events of a trace that touch the file system: the writes and the copies, whole or
  stopped.
\<close>

fun is_fs_event :: "event \<Rightarrow> bool" where
  "is_fs_event (Write p offset b) = True"
| "is_fs_event (Copy src dst) = True"
| "is_fs_event (Copy_broke src dst) = True"
| "is_fs_event e = False"

definition fs_events :: "event list \<Rightarrow> event list" where
  "fs_events es = filter is_fs_event es"

text \<open>A file that already holds the four replacement bytes.\<close>

definition patched_file :: fnode where
  "patched_file =
     \<lparr>content = (blank 4173047)[0x003FACE8 := 0x8D, 0x003FACED := 0x51,
                                 0x003FACF0 := 0x85, 0x003FACF6 := 0xB9],
      readable = True, writable = True\<rparr>"

definition patched_world :: world where
  "patched_world =
     \<lparr>argv = [''patch_money_dll.py'', ''mnyob99.dll''], stdin = [''y''],
      fs = [(''mnyob99.dll'', patched_file)],
      creatable = (\<lambda>_. True), write_limit = (\<lambda>_. None),
      meanwhile = (\<lambda>fsys. fsys), trace = []\<rparr>"

text \<open>
  A later world in which the script has only printed and read standard input since an
  earlier one: it wrote and copied nothing in between, and the command line and the
  operating system's decisions are the same.
\<close>

definition only_talked :: "world \<Rightarrow> world \<Rightarrow> bool" where
  "only_talked w w' =
     (argv w' = argv w \<and> creatable w' = creatable w \<and> write_limit w' = write_limit w
      \<and> meanwhile w' = meanwhile w
      \<and> (\<exists>es. trace w' = trace w @ es \<and> fs_events es = []))"

text \<open>Whether a copy of some bytes gets through under a limit.\<close>

definition fits :: "nat option \<Rightarrow> byte list \<Rightarrow> bool" where
  "fits limit bs = (case limit of None \<Rightarrow> True | Some n \<Rightarrow> length bs \<le> n)"

text \<open>The world the script finds when the answer to a prompt has arrived.\<close>

definition at_prompt :: "world \<Rightarrow> world" where
  "at_prompt w = w\<lparr>fs := meanwhile w (fs w)\<rparr>"

text \<open>An unpatched file: the four offsets hold their original bytes.\<close>

definition original_file :: fnode where
  "original_file =
     \<lparr>content = (blank 4173047)[0x003FACE8 := 0x85, 0x003FACED := 0x50,
                                 0x003FACF0 := 0xFF, 0x003FACF6 := 0xE8],
      readable = True, writable = True\<rparr>"

definition original_world :: world where
  "original_world =
     \<lparr>argv = [''patch_money_dll.py'', ''mnyob99.dll''], stdin = [''y'', ''Y''],
      fs = [(''mnyob99.dll'', original_file)],
      creatable = (\<lambda>_. True), write_limit = (\<lambda>_. None),
      meanwhile = (\<lambda>fsys. fsys), trace = []\<rparr>"

text \<open>The same, on a disk where a copy is stopped after ten bytes.\<close>

definition full_disk_world :: world where
  "full_disk_world = original_world\<lparr>write_limit := (\<lambda>_. Some 10)\<rparr>"

text \<open>
  The same again, but while the script waits for the answer another program changes the
  byte at the third offset: the target becomes \<open>stale_file\<close>.
\<close>

definition raced_world :: world where
  "raced_world =
     original_world\<lparr>meanwhile := (\<lambda>fsys. AList.update ''mnyob99.dll'' stale_file fsys)\<rparr>"

section \<open>Facts about the model\<close>

lemma print_fields [simp]:
  "fs (print m w) = fs w" "stdin (print m w) = stdin w" "argv (print m w) = argv w"
  "creatable (print m w) = creatable w" "write_limit (print m w) = write_limit w"
  "meanwhile (print m w) = meanwhile w" "trace (print m w) = trace w @ [Print m]"
  by (simp_all add: print_def)

lemma take1_drop: "take (Suc 0) (drop n xs) = (if n < length xs then [xs ! n] else [])"
proof (cases "n < length xs")
  case True
  then have "drop n xs = xs ! n # drop (Suc n) xs" by (simp add: Cons_nth_drop_Suc)
  with True show ?thesis by simp
next
  case False
  then show ?thesis by simp
qed

lemma read_byte_at:
  "map_of (fs w) p = Some f \<Longrightarrow>
     first_byte (seek_read1 p offset w) =
       (if offset < length (content f) then Inr (content f ! offset) else Inl IndexError)"
  by (simp add: first_byte_def seek_read1_def take1_drop)

lemma read_byte_missing:
  "map_of (fs w) p = None \<Longrightarrow> first_byte (seek_read1 p offset w) = Inl IndexError"
  by (simp add: first_byte_def seek_read1_def)

lemma enumerate_PATCHES:
  "enumerate_py PATCHES =
     [(0, 0x003FACE8, 0x85, 0x8D), (1, 0x003FACED, 0x50, 0x51),
      (2, 0x003FACF0, 0xFF, 0x85), (3, 0x003FACF6, 0xE8, 0xB9)]"
  by (simp add: enumerate_py_def PATCHES_def upt_rec)

lemma verify_loop_result:
  assumes "map_of (fs w) p = Some f"
    and "\<forall>(i, off, ob, nb) \<in> set ps. off < length (content f)"
  shows "verify_loop p ps needed applied w =
     (Return
        (needed @ map fst (filter (\<lambda>(i, off, ob, nb). content f ! off = ob) ps),
         applied @ map fst
           (filter (\<lambda>(i, off, ob, nb). content f ! off \<noteq> ob \<and> content f ! off = nb) ps)),
      w\<lparr>trace := trace w @
           map (\<lambda>(i, off, ob, nb). Print (Warn_unexpected (i + 1) off (content f ! off) ob nb))
             (filter (\<lambda>(i, off, ob, nb). content f ! off \<noteq> ob \<and> content f ! off \<noteq> nb) ps)\<rparr>)"
  using assms
proof (induction ps arbitrary: needed applied w)
  case Nil
  then show ?case by simp
next
  case (Cons x ps)
  obtain i off ob nb where x: "x = (i, off, ob, nb)" by (cases x) auto
  from Cons.prems have off: "off < length (content f)" by (simp add: x)
  from Cons.prems have rest: "\<forall>(i, off, ob, nb) \<in> set ps. off < length (content f)" by auto
  have rd: "first_byte (seek_read1 p off w) = Inr (content f ! off)"
    using Cons.prems(1) off by (simp add: read_byte_at)
  have pf: "map_of (fs (print m w)) p = Some f" for m using Cons.prems(1) by simp
  show ?case
    using Cons.IH [OF Cons.prems(1) rest] Cons.IH [OF pf rest]
    by (simp add: x rd print_def)
qed

lemma patch_table:
  "py_index PATCHES 0 = Some (0x003FACE8, 0x85, 0x8D)"
  "py_index PATCHES 1 = Some (0x003FACED, 0x50, 0x51)"
  "py_index PATCHES 2 = Some (0x003FACF0, 0xFF, 0x85)"
  "py_index PATCHES 3 = Some (0x003FACF6, 0xE8, 0xB9)"
  by (simp_all add: py_index_def PATCHES_def)

lemma offset_of_simps:
  "offset_of 0 = 0x003FACE8" "offset_of 1 = 0x003FACED"
  "offset_of 2 = 0x003FACF0" "offset_of 3 = 0x003FACF6"
  by (simp_all add: offset_of_def patch_table)

lemma original_of_simps:
  "original_of 0 = 0x85" "original_of 1 = 0x50" "original_of 2 = 0xFF" "original_of 3 = 0xE8"
  by (simp_all add: original_of_def patch_table)

lemma replacement_of_simps:
  "replacement_of 0 = 0x8D" "replacement_of 1 = 0x51"
  "replacement_of 2 = 0x85" "replacement_of 3 = 0xB9"
  by (simp_all add: replacement_of_def patch_table)

lemmas patch_simps = offset_of_simps original_of_simps replacement_of_simps

lemma blank_simps: "length (blank n) = n" "i < n \<Longrightarrow> blank n ! i = 0"
  by (simp_all add: blank_def)

lemma verify_patches_result:
  assumes "map_of (fs w) p = Some f" and "readable f" and "0x003FACF6 < length (content f)"
  shows "verify_patches p w =
      (Return
         (filter (\<lambda>i. classify_byte i (content f ! offset_of i) = NeedsApply) [0, 1, 2, 3],
          filter (\<lambda>i. classify_byte i (content f ! offset_of i) = AlreadyApplied) [0, 1, 2, 3]),
       w\<lparr>trace := trace w @
            map (\<lambda>i. Print (Warn_unexpected (i + 1) (offset_of i) (content f ! offset_of i)
                         (original_of i) (replacement_of i)))
              (filter (\<lambda>i. classify_byte i (content f ! offset_of i) = Unexpected)
                 [0, 1, 2, 3])\<rparr>)"
proof -
  have inr: "\<forall>(i, off, ob, nb) \<in> set (enumerate_py PATCHES). off < length (content f)"
    using assms(3) by (simp add: enumerate_PATCHES)
  have op: "open_rb p w = None" using assms(1,2) by (simp add: open_rb_def)
  show ?thesis
    unfolding verify_patches_def op option.case
      verify_loop_result [OF assms(1) inr, of "[]" "[]"]
    by (simp add: enumerate_PATCHES classify_byte_def patch_simps)
qed

text \<open>
  C2. On every readable file that reaches past the last patch offset, verify_patches
  goes through the four patches in index order, reads the one byte at each offset, and
  returns as first list the indices whose byte is the original, as second list those
  whose byte is the replacement, both in ascending order; an index whose byte is neither
  is in no list and gets one warning. With the four original bytes the result is
  ([0,1,2,3], []), with the four replacement bytes it is ([], [0,1,2,3]).
\<close>

theorem verify_patches_classifies:
  assumes "map_of (fs w) p = Some f" and "readable f" and "0x003FACF6 < length (content f)"
  shows "verify_patches p w =
      (Return
         (filter (\<lambda>i. classify_byte i (content f ! offset_of i) = NeedsApply) [0, 1, 2, 3],
          filter (\<lambda>i. classify_byte i (content f ! offset_of i) = AlreadyApplied) [0, 1, 2, 3]),
       w\<lparr>trace := trace w @
            map (\<lambda>i. Print (Warn_unexpected (i + 1) (offset_of i) (content f ! offset_of i)
                         (original_of i) (replacement_of i)))
              (filter (\<lambda>i. classify_byte i (content f ! offset_of i) = Unexpected)
                 [0, 1, 2, 3])\<rparr>)
    \<and> (\<forall>i \<in> {0, 1, 2, 3}. seek_read1 p (offset_of i) w = [content f ! offset_of i])
    \<and> ((\<forall>i \<in> {0, 1, 2, 3}. content f ! offset_of i = original_of i) \<longrightarrow>
         fst (verify_patches p w) = Return ([0, 1, 2, 3], []))
    \<and> ((\<forall>i \<in> {0, 1, 2, 3}. content f ! offset_of i = replacement_of i) \<longrightarrow>
         fst (verify_patches p w) = Return ([], [0, 1, 2, 3]))"
proof -
  note main = verify_patches_result [OF assms]
  have reads: "\<forall>i \<in> {0, 1, 2, 3}. seek_read1 p (offset_of i) w = [content f ! offset_of i]"
    using assms(1,3) by (simp add: seek_read1_def take1_drop patch_simps)
  have orig: "(\<forall>i \<in> {0, 1, 2, 3}. content f ! offset_of i = original_of i) \<longrightarrow>
         fst (verify_patches p w) = Return ([0, 1, 2, 3], [])"
    unfolding main by (simp add: classify_byte_def patch_simps)
  have repl: "(\<forall>i \<in> {0, 1, 2, 3}. content f ! offset_of i = replacement_of i) \<longrightarrow>
         fst (verify_patches p w) = Return ([], [0, 1, 2, 3])"
    unfolding main by (simp add: classify_byte_def patch_simps)
  from main reads orig repl show ?thesis by (intro conjI)
qed

theorem verify_patches_classifies_witness:
  "verify_patches ''mnyob99.dll'' mixed_world =
     (Return ([0, 3], [1]),
      mixed_world\<lparr>trace := [Print (Warn_unexpected 3 0x003FACF0 0 0xFF 0x85)]\<rparr>)"
  using verify_patches_classifies [of mixed_world "''mnyob99.dll''"
      "\<lparr>content = (blank 4173047)[0x003FACE8 := 0x85, 0x003FACED := 0x51, 0x003FACF6 := 0xE8],
        readable = True, writable = True\<rparr>"]
  by (simp add: mixed_world_def blank_simps classify_byte_def patch_simps)

lemma writes_of_append: "writes_of (xs @ ys) = writes_of xs @ writes_of ys"
  by (induction xs rule: writes_of.induct) simp_all

lemma py_index_mem: "py_index xs i = Some x \<Longrightarrow> x \<in> set xs"
  by (auto simp: py_index_def Let_def split: if_splits)

lemma PATCHES_offsets_distinct:
  "(off, ob, nb) \<in> set PATCHES \<Longrightarrow> (off, ob', nb') \<in> set PATCHES \<Longrightarrow> ob' = ob \<and> nb' = nb"
  by (auto simp: PATCHES_def)

lemma PATCHES_bytes_differ: "(off, ob, nb) \<in> set PATCHES \<Longrightarrow> ob \<noteq> nb"
  by (auto simp: PATCHES_def)

lemma PATCHES_offsets:
  "(off, ob, nb) \<in> set PATCHES \<Longrightarrow> off \<in> {0x003FACE8, 0x003FACED, 0x003FACF0, 0x003FACF6}"
  by (auto simp: PATCHES_def)

lemma patch_fields:
  "py_index PATCHES i = Some (off, ob, nb) \<Longrightarrow>
     offset_of i = off \<and> original_of i = ob \<and> replacement_of i = nb"
  by (simp add: offset_of_def original_of_def replacement_of_def)

lemma seek_write1_fields:
  "stdin (seek_write1 p off b w) = stdin w" "argv (seek_write1 p off b w) = argv w"
  "creatable (seek_write1 p off b w) = creatable w"
  "write_limit (seek_write1 p off b w) = write_limit w"
  "meanwhile (seek_write1 p off b w) = meanwhile w"
  by (simp_all add: seek_write1_def split: option.splits)

lemma seek_write1_file:
  "map_of (fs w) p = Some f \<Longrightarrow> off < length (content f) \<Longrightarrow>
     map_of (fs (seek_write1 p off b w)) = (map_of (fs w))(p \<mapsto> f\<lparr>content := (content f)[off := b]\<rparr>)
     \<and> trace (seek_write1 p off b w) = trace w @ [Write p off b]"
  by (simp add: seek_write1_def write_at_def update_conv')

lemma patched_simps:
  "patched [] c = c"
  "patched (i # idxs) c = patched idxs (c[offset_of i := replacement_of i])"
  "patched (idxs @ [i]) c = (patched idxs c)[offset_of i := replacement_of i]"
  by (simp_all add: patched_def)

lemma length_patched: "length (patched idxs c) = length c"
  by (induction idxs arbitrary: c) (simp_all add: patched_simps)

lemma patched_frame: "k \<notin> offset_of ` set idxs \<Longrightarrow> patched idxs c ! k = c ! k"
  by (induction idxs arbitrary: c) (simp_all add: patched_simps)

lemma patched_written:
  assumes "\<forall>j \<in> set idxs. py_index PATCHES j \<noteq> None \<and> offset_of j < length c"
    and "j \<in> set idxs"
  shows "patched idxs c ! offset_of j = replacement_of j"
  using assms
proof (induction idxs rule: rev_induct)
  case Nil
  then show ?case by simp
next
  case (snoc i idxs)
  from snoc.prems(1) have len: "offset_of i < length (patched idxs c)"
    by (simp add: length_patched)
  show ?case
  proof (cases "offset_of j = offset_of i")
    case True
    from snoc.prems obtain x y where pi: "py_index PATCHES i = Some x" and pj: "py_index PATCHES j = Some y"
      by auto
    obtain oi bi ni where x: "x = (oi, bi, ni)" by (cases x) auto
    obtain oj bj nj where y: "y = (oj, bj, nj)" by (cases y) auto
    from pi pj x y True have "oi = oj"
      using patch_fields by metis
    with pi pj x y have "ni = nj"
      using PATCHES_offsets_distinct py_index_mem by metis
    with pi pj x y have "replacement_of i = replacement_of j"
      using patch_fields by metis
    with True len show ?thesis by (simp add: patched_simps)
  next
    case False
    with snoc.prems have "j \<in> set idxs" by auto
    with snoc.IH snoc.prems(1) have "patched idxs c ! offset_of j = replacement_of j" by simp
    with False show ?thesis by (simp add: patched_simps)
  qed
qed

lemma apply_loop_effect:
  assumes "map_of (fs w) p = Some f" and "apply_loop p idxs w = (r, w')"
  shows "\<exists>n. n \<le> length idxs \<and> (r = Return True \<longleftrightarrow> n = length idxs)
     \<and> (\<forall>i \<in> set (take n idxs). py_index PATCHES i \<noteq> None \<and> offset_of i < length (content f))
     \<and> map_of (fs w') = (map_of (fs w))(p \<mapsto> f\<lparr>content := patched (take n idxs) (content f)\<rparr>)
     \<and> writes_of (trace w') =
         writes_of (trace w) @ map (\<lambda>i. (p, offset_of i, replacement_of i)) (take n idxs)
     \<and> stdin w' = stdin w \<and> argv w' = argv w \<and> creatable w' = creatable w
       \<and> write_limit w' = write_limit w \<and> meanwhile w' = meanwhile w"
  using assms
proof (induction idxs arbitrary: w f)
  case Nil
  then show ?case by (auto simp: patched_simps map_upd_triv)
next
  case (Cons i rest)
  have stop: ?case if "w' = w \<or> (\<exists>m. w' = print m w)" and "r \<noteq> Return True"
  proof -
    from that Cons.prems(1) have "map_of (fs w') = (map_of (fs w))(p \<mapsto> f\<lparr>content := content f\<rparr>)"
      by (auto simp: map_upd_triv)
    moreover from that have "writes_of (trace w') = writes_of (trace w)"
      by (auto simp: writes_of_append)
    moreover from that have "stdin w' = stdin w \<and> argv w' = argv w \<and> creatable w' = creatable w
       \<and> write_limit w' = write_limit w \<and> meanwhile w' = meanwhile w"
      by auto
    ultimately show ?thesis using that(2)
      by (intro exI [of _ 0]) (simp add: patched_simps)
  qed
  show ?case
  proof (cases "py_index PATCHES i")
    case None
    with Cons.prems(2) stop show ?thesis by auto
  next
    case (Some x)
    obtain off ob nb where x: "x = (off, ob, nb)" by (cases x) auto
    note pf = patch_fields [OF Some [unfolded x]]
    show ?thesis
    proof (cases "off < length (content f)")
      case False
      with Cons.prems Some x have "r = Raise IndexError" "w' = w"
        by (simp_all add: read_byte_at)
      with stop show ?thesis by auto
    next
      case True
      then have rd: "first_byte (seek_read1 p off w) = Inr (content f ! off)"
        using Cons.prems(1) by (simp add: read_byte_at)
      show ?thesis
      proof (cases "content f ! off = ob")
        case False
        with Cons.prems(2) Some x rd
        have "r = Return False" "w' = print (Err_verification (i + 1) ob off (content f ! off)) w"
          by simp_all
        with stop show ?thesis by auto
      next
        case eq: True
        let ?w2 = "print (Patch_changed (i + 1) off ob nb) (seek_write1 p off nb w)"
        let ?f2 = "f\<lparr>content := (content f)[off := nb]\<rparr>"
        note sw = seek_write1_file [OF Cons.prems(1) True, of nb]
        have f2: "map_of (fs ?w2) p = Some ?f2" using sw by simp
        from Cons.prems(2) Some x rd eq have run: "apply_loop p rest ?w2 = (r, w')" by simp
        from Cons.IH [OF f2 run] obtain n where
          n: "n \<le> length rest" "r = Return True \<longleftrightarrow> n = length rest"
          and valid: "\<forall>i \<in> set (take n rest). py_index PATCHES i \<noteq> None \<and> offset_of i < length (content ?f2)"
          and fs': "map_of (fs w') = (map_of (fs ?w2))(p \<mapsto> ?f2\<lparr>content := patched (take n rest) (content ?f2)\<rparr>)"
          and wr: "writes_of (trace w') =
             writes_of (trace ?w2) @ map (\<lambda>i. (p, offset_of i, replacement_of i)) (take n rest)"
          and rest: "stdin w' = stdin ?w2" "argv w' = argv ?w2" "creatable w' = creatable ?w2"
            "write_limit w' = write_limit ?w2" "meanwhile w' = meanwhile ?w2"
          by blast
        have "map_of (fs w') =
            (map_of (fs w))(p \<mapsto> f\<lparr>content := patched (take (Suc n) (i # rest)) (content f)\<rparr>)"
          using fs' sw by (simp add: patched_simps pf)
        moreover have "writes_of (trace w') =
            writes_of (trace w) @ map (\<lambda>i. (p, offset_of i, replacement_of i)) (take (Suc n) (i # rest))"
          using wr sw by (simp add: writes_of_append pf)
        moreover have "\<forall>j \<in> set (take (Suc n) (i # rest)).
            py_index PATCHES j \<noteq> None \<and> offset_of j < length (content f)"
          using valid Some True pf x by simp
        moreover have "stdin w' = stdin w \<and> argv w' = argv w \<and> creatable w' = creatable w
       \<and> write_limit w' = write_limit w \<and> meanwhile w' = meanwhile w"
          using rest by (simp add: seek_write1_fields)
        ultimately show ?thesis using n
          by (intro exI [of _ "Suc n"]) simp
      qed
    qed
  qed
qed

lemma apply_loop_append:
  "apply_loop p (xs @ ys) w =
     (case apply_loop p xs w of (Return True, w1) \<Rightarrow> apply_loop p ys w1 | r \<Rightarrow> r)"
  by (induction xs arbitrary: w)
     (auto split: option.splits sum.splits prod.splits outcome.splits bool.splits)

lemmas run_simps =
  apply_patches_def open_rpb_def open_rb_def seek_read1_def first_byte_def take1_drop
  seek_write1_def write_at_def print_def patch_table blank_simps

lemma apply_patches_effect:
  assumes "map_of (fs w) p = Some f" and "apply_patches p idxs w = (r, w')"
  shows "\<exists>n. n \<le> length idxs \<and> (r = Return True \<longrightarrow> n = length idxs)
     \<and> (\<forall>i \<in> set (take n idxs). py_index PATCHES i \<noteq> None \<and> offset_of i < length (content f))
     \<and> map_of (fs w') = (map_of (fs w))(p \<mapsto> f\<lparr>content := patched (take n idxs) (content f)\<rparr>)
     \<and> writes_of (trace w') =
         writes_of (trace w) @ map (\<lambda>i. (p, offset_of i, replacement_of i)) (take n idxs)
     \<and> stdin w' = stdin w \<and> argv w' = argv w \<and> creatable w' = creatable w
       \<and> write_limit w' = write_limit w \<and> meanwhile w' = meanwhile w"
proof (cases "open_rpb p w")
  case None
  with assms(2) have "apply_loop p idxs w = (r, w')" by (simp add: apply_patches_def)
  from apply_loop_effect [OF assms(1) this] show ?thesis by blast
next
  case (Some e)
  with assms(2) have "r = Raise e" "w' = w" by (simp_all add: apply_patches_def)
  with assms(1) show ?thesis
    by (intro exI [of _ 0]) (simp add: patched_simps map_upd_triv)
qed

lemma valid_offset:
  "py_index PATCHES i \<noteq> None \<Longrightarrow>
     offset_of i \<in> {0x003FACE8, 0x003FACED, 0x003FACF0, 0x003FACF6}"
  using PATCHES_offsets py_index_mem patch_fields by (metis not_Some_eq prod_cases3)

text \<open>
  C9. Whatever apply_patches returns, it leaves every other file as it was, and in the
  target file it changes no byte position other than the offsets of the indices it wrote
  (a prefix of the list it was given, the whole list on success), all of them among the
  four patch offsets; the length of the file stays the same.
\<close>

theorem apply_patches_frame:
  assumes "apply_patches p idxs w = (r, w')"
  shows "(\<forall>q. q \<noteq> p \<longrightarrow> map_of (fs w') q = map_of (fs w) q)
    \<and> (map_of (fs w) p = None \<longrightarrow> map_of (fs w') p = None)
    \<and> (\<forall>f. map_of (fs w) p = Some f \<longrightarrow>
         (\<exists>n c'. n \<le> length idxs \<and> (r = Return True \<longrightarrow> n = length idxs)
            \<and> map_of (fs w') p = Some (f\<lparr>content := c'\<rparr>)
            \<and> length c' = length (content f)
            \<and> writes_of (trace w') =
                writes_of (trace w) @ map (\<lambda>i. (p, offset_of i, replacement_of i)) (take n idxs)
            \<and> (\<forall>k. k \<notin> offset_of ` set (take n idxs) \<longrightarrow> c' ! k = content f ! k)
            \<and> (\<forall>k. k \<notin> {0x003FACE8, 0x003FACED, 0x003FACF0, 0x003FACF6}
                   \<longrightarrow> c' ! k = content f ! k)))"
proof (cases "map_of (fs w) p")
  case None
  then have "open_rpb p w = Some FileNotFoundError" by (simp add: open_rpb_def)
  with assms have "w' = w" by (simp add: apply_patches_def)
  with None show ?thesis by simp
next
  case (Some f)
  from apply_patches_effect [OF Some assms] obtain n where
    n: "n \<le> length idxs" "r = Return True \<longrightarrow> n = length idxs"
    and valid: "\<forall>i \<in> set (take n idxs). py_index PATCHES i \<noteq> None \<and> offset_of i < length (content f)"
    and fs': "map_of (fs w') = (map_of (fs w))(p \<mapsto> f\<lparr>content := patched (take n idxs) (content f)\<rparr>)"
    and wr: "writes_of (trace w') =
         writes_of (trace w) @ map (\<lambda>i. (p, offset_of i, replacement_of i)) (take n idxs)"
    by blast
  let ?c = "patched (take n idxs) (content f)"
  have four: "offset_of ` set (take n idxs) \<subseteq> {0x003FACE8, 0x003FACED, 0x003FACF0, 0x003FACF6}"
    using valid valid_offset by blast
  have fr: "\<forall>k. k \<notin> offset_of ` set (take n idxs) \<longrightarrow> ?c ! k = content f ! k"
    by (simp add: patched_frame)
  have fr4: "\<forall>k. k \<notin> {0x003FACE8, 0x003FACED, 0x003FACF0, 0x003FACF6} \<longrightarrow> ?c ! k = content f ! k"
    using fr four by blast
  have others: "\<forall>q. q \<noteq> p \<longrightarrow> map_of (fs w') q = map_of (fs w) q"
    using fs' by simp
  have target: "\<exists>n c'. n \<le> length idxs \<and> (r = Return True \<longrightarrow> n = length idxs)
            \<and> map_of (fs w') p = Some (f\<lparr>content := c'\<rparr>)
            \<and> length c' = length (content f)
            \<and> writes_of (trace w') =
                writes_of (trace w) @ map (\<lambda>i. (p, offset_of i, replacement_of i)) (take n idxs)
            \<and> (\<forall>k. k \<notin> offset_of ` set (take n idxs) \<longrightarrow> c' ! k = content f ! k)
            \<and> (\<forall>k. k \<notin> {0x003FACE8, 0x003FACED, 0x003FACF0, 0x003FACF6}
                   \<longrightarrow> c' ! k = content f ! k)"
    using n fs' wr fr fr4 length_patched [of "take n idxs" "content f"]
    by (intro exI [of _ n] exI [of _ ?c]) simp
  from others target Some show ?thesis by simp
qed

lemma stale_world_file: "map_of (fs stale_world) ''mnyob99.dll'' = Some stale_file"
  by (simp add: stale_world_def)

theorem apply_patches_frame_witness:
  "\<exists>f'. map_of (fs (snd (apply_patches ''mnyob99.dll'' [0, 1, 2, 3] stale_world))) ''mnyob99.dll''
          = Some f'
       \<and> length (content f') = 4173047 \<and> content f' ! 7 = 0 \<and> content f' ! 0x003FACE9 = 0"
proof -
  obtain r w' where run: "apply_patches ''mnyob99.dll'' [0, 1, 2, 3] stale_world = (r, w')"
    by (cases "apply_patches ''mnyob99.dll'' [0, 1, 2, 3] stale_world") auto
  from apply_patches_frame [OF run] stale_world_file
  obtain c' where "map_of (fs w') ''mnyob99.dll'' = Some (stale_file\<lparr>content := c'\<rparr>)"
    and "length c' = length (content stale_file)"
    and "\<forall>k. k \<notin> {0x003FACE8, 0x003FACED, 0x003FACF0, 0x003FACF6}
           \<longrightarrow> c' ! k = content stale_file ! k"
    by blast
  then show ?thesis
    by (simp add: run stale_file_def blank_simps)
qed

text \<open>
  C3. apply_patches goes through the indices in the order given. When the indices before
  some index were all written and the byte re-read at that index's offset is not the
  expected original, it returns False at once: the world is the one the earlier indices
  left, plus the error line. So the replacement bytes of the earlier indices stay written,
  the failing offset keeps the byte that was found, and nothing is written for the failing
  index or any index after it.
\<close>

theorem apply_patches_stops_at_mismatch:
  assumes "map_of (fs w) p = Some f"
    and "apply_patches p pre w = (Return True, w1)"
    and "py_index PATCHES i = Some (off, ob, nb)"
    and "first_byte (seek_read1 p off w1) = Inr b"
    and "b \<noteq> ob"
  shows "apply_patches p (pre @ i # post) w =
           (Return False, print (Err_verification (i + 1) ob off b) w1)
    \<and> map_of (fs w1) p = Some (f\<lparr>content := patched pre (content f)\<rparr>)
    \<and> (\<forall>j \<in> set pre. patched pre (content f) ! offset_of j = replacement_of j)
    \<and> patched pre (content f) ! off = b
    \<and> writes_of (trace (print (Err_verification (i + 1) ob off b) w1)) =
         writes_of (trace w) @ map (\<lambda>j. (p, offset_of j, replacement_of j)) pre"
proof -
  from assms(2) have op: "open_rpb p w = None"
    by (auto simp: apply_patches_def split: option.splits)
  with assms(2) have pre: "apply_loop p pre w = (Return True, w1)"
    by (simp add: apply_patches_def)
  have step: "apply_loop p (i # post) w1 =
      (Return False, print (Err_verification (i + 1) ob off b) w1)"
    using assms(3,4,5) by simp
  have run: "apply_patches p (pre @ i # post) w =
      (Return False, print (Err_verification (i + 1) ob off b) w1)"
    by (simp add: apply_patches_def op apply_loop_append pre step del: apply_loop.simps)
  from apply_loop_effect [OF assms(1) pre] have
    valid: "\<forall>i \<in> set pre. py_index PATCHES i \<noteq> None \<and> offset_of i < length (content f)"
    and fs1: "map_of (fs w1) = (map_of (fs w))(p \<mapsto> f\<lparr>content := patched pre (content f)\<rparr>)"
    and wr: "writes_of (trace w1) =
         writes_of (trace w) @ map (\<lambda>i. (p, offset_of i, replacement_of i)) pre"
    by auto
  from fs1 have f1: "map_of (fs w1) p = Some (f\<lparr>content := patched pre (content f)\<rparr>)"
    by simp
  have written: "\<forall>j \<in> set pre. patched pre (content f) ! offset_of j = replacement_of j"
    using patched_written [OF valid] by blast
  have found: "patched pre (content f) ! off = b"
    using assms(4) read_byte_at [OF f1, of off] by (simp split: if_splits)
  from run f1 written found wr show ?thesis
    by (simp add: writes_of_append)
qed

theorem apply_patches_stops_at_mismatch_witness:
  "fst (apply_patches ''mnyob99.dll'' [0, 1, 2, 3] stale_world) = Return False
   \<and> (\<exists>f'. map_of (fs (snd (apply_patches ''mnyob99.dll'' [0, 1, 2, 3] stale_world)))
              ''mnyob99.dll'' = Some f'
          \<and> content f' ! 0x003FACE8 = 0x8D \<and> content f' ! 0x003FACED = 0x51
          \<and> content f' ! 0x003FACF0 = 0x42 \<and> content f' ! 0x003FACF6 = 0xE8)
   \<and> writes_of (trace (snd (apply_patches ''mnyob99.dll'' [0, 1, 2, 3] stale_world))) =
       [(''mnyob99.dll'', 0x003FACE8, 0x8D), (''mnyob99.dll'', 0x003FACED, 0x51)]"
proof -
  let ?w1 = "snd (apply_patches ''mnyob99.dll'' [0, 1] stale_world)"
  have pre: "apply_patches ''mnyob99.dll'' [0, 1] stale_world = (Return True, ?w1)"
    by (simp add: run_simps stale_world_def stale_file_def)
  have rd: "first_byte (seek_read1 ''mnyob99.dll'' 0x003FACF0 ?w1) = Inr 0x42"
    by (simp add: run_simps stale_world_def stale_file_def)
  show ?thesis
    using apply_patches_stops_at_mismatch
      [OF stale_world_file pre patch_table(3) rd, of "[3]"]
    by (simp add: stale_world_def stale_file_def blank_simps patched_simps patch_simps)
qed

lemma backup_loop_from:
  assumes "\<forall>j<k. path_exists fsys (backup_name p j)"
    and "\<not> path_exists fsys (backup_name p k)"
    and "m \<le> k"
  shows "backup_loop fsys p (backup_name p m) (m + 1) = backup_name p k"
  using assms(3)
proof (induction "k - m" arbitrary: m)
  case 0
  then have "m = k" by simp
  with assms(2) show ?case by (subst backup_loop.simps) simp
next
  case (Suc d)
  then have "m < k" by simp
  with assms(1) have ex: "path_exists fsys (backup_name p m)" by simp
  have nm: "p @ ''.backup.'' @ str_nat (m + 1) = backup_name p (m + 1)"
    by (simp add: backup_name_def)
  from Suc have "backup_loop fsys p (backup_name p (m + 1)) (m + 1 + 1) = backup_name p k"
    by (intro Suc.hyps(1)) simp_all
  with ex nm show ?case by (subst backup_loop.simps) simp
qed

lemma backup_name_inj: "backup_name p j = backup_name p k \<Longrightarrow> j = k"
  by (auto simp: backup_name_def str_nat_nonempty dest: str_nat_inj split: if_splits)

lemma free_backup_name_exists:
  "\<exists>k. \<not> path_exists fsys (backup_name p k) \<and> (\<forall>j<k. path_exists fsys (backup_name p j))"
proof -
  have "{n. path_exists fsys (backup_name p n)}
      \<subseteq> insert 0 {n. path_exists fsys (p @ ''.backup.'' @ str_nat n)}"
    by (auto simp: backup_name_def split: if_splits)
  moreover have "finite (insert 0 {n. path_exists fsys (p @ ''.backup.'' @ str_nat n)})"
    using numbered_names_finite [of fsys p] by (rule finite.insertI)
  ultimately have "finite {n. path_exists fsys (backup_name p n)}"
    by (rule finite_subset)
  then have "\<exists>k. k \<notin> {n. path_exists fsys (backup_name p n)}"
    by (intro ex_new_if_finite) simp_all
  then have "\<exists>k. \<not> path_exists fsys (backup_name p k)" by simp
  then obtain k where "\<not> path_exists fsys (backup_name p k)"
    and "\<forall>j<k. \<not> \<not> path_exists fsys (backup_name p j)"
    using exists_least_iff [of "\<lambda>k. \<not> path_exists fsys (backup_name p k)"] by blast
  then show ?thesis by auto
qed

lemma backup_name_differs: "backup_name p k \<noteq> p"
  by (simp add: backup_name_def)

lemma fits_cases:
  "fits limit bs \<or> (\<exists>n. limit = Some n \<and> n < length bs)"
  by (cases limit) (auto simp: fits_def)

lemma write_copy_whole:
  "fits (write_limit w dst) (content f) \<Longrightarrow>
     write_copy src dst f g w =
       (Return (), w\<lparr>fs := AList.update dst f (fs w), trace := trace w @ [Copy src dst]\<rparr>)"
  by (auto simp: write_copy_def fits_def Let_def split: option.splits)

lemma write_copy_broke:
  "write_limit w dst = Some n \<Longrightarrow> n < length (content f) \<Longrightarrow>
     write_copy src dst f g w =
       (Raise OSError,
        w\<lparr>fs := AList.update dst (g\<lparr>content := take n (content f)\<rparr>) (fs w),
          trace := trace w @ [Copy_broke src dst]\<rparr>)"
  by (simp add: write_copy_def Let_def)

lemma copy2_new:
  assumes "map_of (fs w) src = Some f" and "map_of (fs w) dst = None"
  shows "copy2 src dst w =
     (if \<not> readable f then (Raise PermissionError, w)
      else if creatable w dst
      then write_copy src dst f \<lparr>content = [], readable = True, writable = True\<rparr> w
      else (Raise OSError, w))"
  using assms by (auto simp: copy2_def)

lemma create_backup_cases:
  assumes "\<not> path_exists (fs w) (backup_name p k)"
    and "\<forall>j<k. path_exists (fs w) (backup_name p j)"
  shows "(\<exists>f. map_of (fs w) p = Some f \<and> readable f \<and> creatable w (backup_name p k)
            \<and> fits (write_limit w (backup_name p k)) (content f)
            \<and> create_backup p w =
                (Return (backup_name p k),
                 w\<lparr>fs := AList.update (backup_name p k) f (fs w),
                   trace := trace w @ [Copy p (backup_name p k),
                                       Print (Backup_created (backup_name p k))]\<rparr>))
       \<or> (\<exists>e. create_backup p w = (Raise e, w)
            \<and> (map_of (fs w) p = None \<or> (\<exists>f. map_of (fs w) p = Some f \<and> \<not> readable f)
                 \<or> \<not> creatable w (backup_name p k)))
       \<or> (\<exists>f n. map_of (fs w) p = Some f \<and> readable f \<and> creatable w (backup_name p k)
            \<and> write_limit w (backup_name p k) = Some n \<and> n < length (content f)
            \<and> create_backup p w =
                (Raise OSError,
                 w\<lparr>fs := AList.update (backup_name p k)
                           \<lparr>content = take n (content f), readable = True, writable = True\<rparr>
                           (fs w),
                   trace := trace w @ [Copy_broke p (backup_name p k)]\<rparr>))"
proof -
  have loop: "backup_loop (fs w) p (p @ ''.backup'') 1 = backup_name p k"
    using backup_loop_from [OF assms(2,1), of 0] by (simp add: backup_name_def)
  from assms(1) have free: "map_of (fs w) (backup_name p k) = None"
    by (simp add: path_exists_def)
  have cb: "create_backup p w =
      then_do (copy2 p (backup_name p k) w)
        (\<lambda>_ w'. (Return (backup_name p k), print (Backup_created (backup_name p k)) w'))"
    unfolding create_backup_def loop by (simp add: Let_def)
  show ?thesis
  proof (cases "map_of (fs w) p")
    case None
    then show ?thesis
      by (simp add: cb copy2_def then_do_def)
  next
    case (Some f)
    note cp = copy2_new [OF Some free]
    show ?thesis
    proof (cases "readable f \<and> creatable w (backup_name p k)")
      case False
      with cp Some show ?thesis by (auto simp: cb then_do_def)
    next
      case True
      from fits_cases [of "write_limit w (backup_name p k)" "content f"] show ?thesis
      proof (elim disjE exE conjE)
        assume ft: "fits (write_limit w (backup_name p k)) (content f)"
        have "create_backup p w =
                (Return (backup_name p k),
                 w\<lparr>fs := AList.update (backup_name p k) f (fs w),
                   trace := trace w @ [Copy p (backup_name p k),
                                       Print (Backup_created (backup_name p k))]\<rparr>)"
          using True by (simp add: cb cp write_copy_whole [OF ft] then_do_def print_def)
        with Some True ft show ?thesis by simp
      next
        fix n assume n: "write_limit w (backup_name p k) = Some n" "n < length (content f)"
        have "create_backup p w =
                (Raise OSError,
                 w\<lparr>fs := AList.update (backup_name p k)
                           \<lparr>content = take n (content f), readable = True, writable = True\<rparr>
                           (fs w),
                   trace := trace w @ [Copy_broke p (backup_name p k)]\<rparr>)"
          using True by (simp add: cb cp write_copy_broke [OF n] then_do_def)
        with Some True n show ?thesis by simp
      qed
    qed
  qed
qed

text \<open>
  C6. For every target path and every file system, create_backup takes the first name of
  the sequence \<^verbatim>\<open><file>.backup\<close>, \<^verbatim>\<open><file>.backup.1\<close>, \<^verbatim>\<open><file>.backup.2\<close>, ... that does
  not exist: every earlier name of the sequence exists and the names of the sequence are
  pairwise different. When the target can be read, the operating system lets a file be
  created under that name and the copy gets through, create_backup returns that name and
  the new file is a copy of the target; in every other case it raises. Whatever happens,
  every file that existed before the call is still there unchanged after it.
\<close>

theorem create_backup_first_available:
  "\<exists>k. backup_loop (fs w) p (p @ ''.backup'') 1 = backup_name p k
      \<and> \<not> path_exists (fs w) (backup_name p k)
      \<and> (\<forall>j<k. path_exists (fs w) (backup_name p j))
      \<and> (\<forall>j. j \<noteq> k \<longrightarrow> backup_name p j \<noteq> backup_name p k)
      \<and> (\<forall>f. map_of (fs w) p = Some f \<and> readable f \<and> creatable w (backup_name p k)
               \<and> fits (write_limit w (backup_name p k)) (content f)
             \<longrightarrow> fst (create_backup p w) = Return (backup_name p k)
                 \<and> map_of (fs (snd (create_backup p w))) (backup_name p k) = Some f)
      \<and> (\<not> (\<exists>f. map_of (fs w) p = Some f \<and> readable f \<and> creatable w (backup_name p k)
               \<and> fits (write_limit w (backup_name p k)) (content f))
             \<longrightarrow> (\<exists>e. fst (create_backup p w) = Raise e))
      \<and> (\<forall>q. path_exists (fs w) q \<longrightarrow>
             map_of (fs (snd (create_backup p w))) q = map_of (fs w) q)"
proof -
  from free_backup_name_exists [of "fs w" p] obtain k
    where free: "\<not> path_exists (fs w) (backup_name p k)"
      and taken: "\<forall>j<k. path_exists (fs w) (backup_name p j)"
    by blast
  let ?b = "backup_name p k"
  let ?ok = "\<exists>f. map_of (fs w) p = Some f \<and> readable f \<and> creatable w ?b
               \<and> fits (write_limit w ?b) (content f)"
  have loop: "backup_loop (fs w) p (p @ ''.backup'') 1 = ?b"
    using backup_loop_from [OF taken free, of 0] by (simp add: backup_name_def)
  have inj: "\<forall>j. j \<noteq> k \<longrightarrow> backup_name p j \<noteq> ?b"
    using backup_name_inj by blast
  note cases = create_backup_cases [OF free taken]
  have good: "\<forall>f. map_of (fs w) p = Some f \<and> readable f \<and> creatable w ?b
               \<and> fits (write_limit w ?b) (content f)
             \<longrightarrow> fst (create_backup p w) = Return ?b
                 \<and> map_of (fs (snd (create_backup p w))) ?b = Some f"
    using cases by (auto simp: update_conv' fits_def)
  have bad: "\<not> ?ok \<longrightarrow> (\<exists>e. fst (create_backup p w) = Raise e)"
    using cases by auto
  have kept: "\<forall>q. path_exists (fs w) q \<longrightarrow>
             map_of (fs (snd (create_backup p w))) q = map_of (fs w) q"
    using cases free by (auto simp: update_conv')
  from loop free taken inj good bad kept show ?thesis
    by (intro exI [of _ k] conjI)
qed

lemma crowded_names:
  "backup_name ''m.dll'' 0 = ''m.dll.backup''"
  "backup_name ''m.dll'' 1 = ''m.dll.backup.1''"
  "backup_name ''m.dll'' 2 = ''m.dll.backup.2''"
  by code_simp+

theorem create_backup_first_available_witness:
  "fst (create_backup ''m.dll'' crowded_world) = Return ''m.dll.backup.2''
   \<and> map_of (fs (snd (create_backup ''m.dll'' crowded_world))) ''m.dll.backup.2''
       = map_of crowded_fs ''m.dll''
   \<and> map_of (fs (snd (create_backup ''m.dll'' crowded_world))) ''m.dll.backup''
       = map_of crowded_fs ''m.dll.backup''
   \<and> map_of (fs (snd (create_backup ''m.dll'' crowded_world))) ''m.dll.backup.1''
       = map_of crowded_fs ''m.dll.backup.1''"
proof -
  let ?f = "\<lparr>content = [1, 2, 3 :: byte], readable = True, writable = True\<rparr>"
  have ex: "path_exists (fs crowded_world) ''m.dll.backup''"
    "path_exists (fs crowded_world) ''m.dll.backup.1''"
    "\<not> path_exists (fs crowded_world) ''m.dll.backup.2''"
    by (simp_all add: crowded_world_def crowded_fs_def path_exists_def)
  have src: "map_of (fs crowded_world) ''m.dll'' = Some ?f"
    by (simp add: crowded_world_def crowded_fs_def)
  have env: "creatable crowded_world x" "fits (write_limit crowded_world x) bs" for x bs
    by (simp_all add: crowded_world_def fits_def)
  from create_backup_first_available [of crowded_world "''m.dll''"] obtain k where
    k: "\<not> path_exists (fs crowded_world) (backup_name ''m.dll'' k)"
      "\<forall>j<k. path_exists (fs crowded_world) (backup_name ''m.dll'' j)"
    and good: "\<forall>f. map_of (fs crowded_world) ''m.dll'' = Some f \<and> readable f
               \<and> creatable crowded_world (backup_name ''m.dll'' k)
               \<and> fits (write_limit crowded_world (backup_name ''m.dll'' k)) (content f)
             \<longrightarrow> fst (create_backup ''m.dll'' crowded_world) = Return (backup_name ''m.dll'' k)
                 \<and> map_of (fs (snd (create_backup ''m.dll'' crowded_world)))
                       (backup_name ''m.dll'' k) = Some f"
    and kept: "\<forall>q. path_exists (fs crowded_world) q \<longrightarrow>
             map_of (fs (snd (create_backup ''m.dll'' crowded_world))) q = map_of (fs crowded_world) q"
    by blast
  have "\<not> 2 < k"
  proof
    assume "2 < k"
    with k(2) have "path_exists (fs crowded_world) (backup_name ''m.dll'' 2)" by blast
    with ex(3) show False by (simp add: crowded_names)
  qed
  moreover have "k \<noteq> 0"
  proof
    assume "k = 0"
    with k(1) ex(1) show False by (simp add: crowded_names)
  qed
  moreover have "k \<noteq> 1"
  proof
    assume "k = 1"
    with k(1) ex(2) show False by (simp add: crowded_names del: One_nat_def)
  qed
  ultimately have k2: "k = 2" by arith
  from good [rule_format, of ?f] src env
  have "fst (create_backup ''m.dll'' crowded_world) = Return (backup_name ''m.dll'' k)
      \<and> map_of (fs (snd (create_backup ''m.dll'' crowded_world))) (backup_name ''m.dll'' k)
            = Some ?f"
    by simp
  then have "fst (create_backup ''m.dll'' crowded_world) = Return ''m.dll.backup.2''
      \<and> map_of (fs (snd (create_backup ''m.dll'' crowded_world))) ''m.dll.backup.2'' = Some ?f"
    by (simp add: k2 crowded_names)
  with kept ex src show ?thesis
    by (simp add: crowded_world_def)
qed

lemma create_backup_Return:
  assumes "create_backup p w = (Return b, w1)"
  shows "\<exists>f k. b = backup_name p k \<and> map_of (fs w) p = Some f \<and> readable f
      \<and> map_of (fs w) b = None \<and> b \<noteq> p
      \<and> w1 = w\<lparr>fs := AList.update b f (fs w),
                 trace := trace w @ [Copy p b, Print (Backup_created b)]\<rparr>"
proof -
  from free_backup_name_exists [of "fs w" p] obtain k
    where free: "\<not> path_exists (fs w) (backup_name p k)"
      and taken: "\<forall>j<k. path_exists (fs w) (backup_name p j)"
    by blast
  from create_backup_cases [OF free taken] assms
  obtain f where "map_of (fs w) p = Some f" "readable f"
    and "b = backup_name p k"
    and "w1 = w\<lparr>fs := AList.update (backup_name p k) f (fs w),
                 trace := trace w @ [Copy p (backup_name p k),
                                     Print (Backup_created (backup_name p k))]\<rparr>"
    by auto
  with free show ?thesis
    by (auto simp: path_exists_def backup_name_differs)
qed

lemma stale_file_bytes:
  "length (content stale_file) = 4173047"
  "content stale_file ! 0x003FACE8 = 0x85" "content stale_file ! 0x003FACED = 0x50"
  "content stale_file ! 0x003FACF0 = 0x42" "content stale_file ! 0x003FACF6 = 0xE8"
  "readable stale_file" "writable stale_file"
  by (simp_all add: stale_file_def blank_simps)

lemma index_in_table:
  "i \<in> {0, 1, 2, 3} \<Longrightarrow> py_index PATCHES i = Some (offset_of i, original_of i, replacement_of i)"
  by (auto simp: patch_table patch_simps)

lemma offsets_differ:
  "i \<in> {0, 1, 2, 3} \<Longrightarrow> j \<in> {0, 1, 2, 3} \<Longrightarrow> i \<noteq> j \<Longrightarrow> offset_of i \<noteq> offset_of j"
  by (auto simp: patch_simps)

lemma apply_loop_run:
  assumes "map_of (fs w) p = Some f"
    and "distinct idxs" and "set idxs \<subseteq> {0, 1, 2, 3}"
    and "\<forall>i \<in> set idxs. offset_of i < length (content f) \<and> content f ! offset_of i = original_of i"
  shows "fst (apply_loop p idxs w) = Return True"
  using assms
proof (induction idxs arbitrary: w f)
  case Nil
  then show ?case by simp
next
  case (Cons i rest)
  from Cons.prems(3) have i: "i \<in> {0, 1, 2, 3}" by simp
  note tab = index_in_table [OF i]
  from Cons.prems(4) have len: "offset_of i < length (content f)"
    and orig: "content f ! offset_of i = original_of i" by simp_all
  have rd: "first_byte (seek_read1 p (offset_of i) w) = Inr (original_of i)"
    using Cons.prems(1) len orig by (simp add: read_byte_at)
  let ?f2 = "f\<lparr>content := (content f)[offset_of i := replacement_of i]\<rparr>"
  let ?w2 = "print (Patch_changed (i + 1) (offset_of i) (original_of i) (replacement_of i))
               (seek_write1 p (offset_of i) (replacement_of i) w)"
  have f2: "map_of (fs ?w2) p = Some ?f2"
    using seek_write1_file [OF Cons.prems(1) len, of "replacement_of i"] by simp
  have rest: "\<forall>j \<in> set rest. offset_of j < length (content ?f2)
      \<and> content ?f2 ! offset_of j = original_of j"
  proof
    fix j assume j: "j \<in> set rest"
    with Cons.prems(2) have ij: "i \<noteq> j" by auto
    from j Cons.prems(3) have jin: "j \<in> {0, 1, 2, 3}" by auto
    have "offset_of i \<noteq> offset_of j" by (rule offsets_differ [OF i jin ij])
    with Cons.prems(4) j show "offset_of j < length (content ?f2)
      \<and> content ?f2 ! offset_of j = original_of j" by simp
  qed
  have "fst (apply_loop p rest ?w2) = Return True"
    using Cons.IH [OF f2 _ _ rest] Cons.prems(2,3) by simp
  then show ?case by (simp add: tab rd)
qed

lemma apply_loop_stops:
  assumes "apply_loop p pre w = (Return True, w1)"
    and "py_index PATCHES i = Some (off, ob, nb)"
    and "first_byte (seek_read1 p off w1) = Inr b"
    and "b \<noteq> ob"
  shows "apply_loop p (pre @ i # post) w =
           (Return False, print (Err_verification (i + 1) ob off b) w1)"
proof -
  have step: "apply_loop p (i # post) w1 =
      (Return False, print (Err_verification (i + 1) ob off b) w1)"
    using assms(2,3,4) by simp
  show ?thesis
    by (simp add: apply_loop_append assms(1) step del: apply_loop.simps)
qed



lemma stale_apply_fails:
  assumes "map_of (fs w) ''mnyob99.dll'' = Some stale_file"
  shows "fst (apply_patches ''mnyob99.dll'' [0, 1, 2, 3] w) = Return False"
proof -
  let ?p = "''mnyob99.dll''"
  have op: "open_rpb ?p w = None"
    using assms by (simp add: open_rpb_def stale_file_bytes)
  obtain r w1 where pre: "apply_loop ?p [0, 1] w = (r, w1)"
    by (cases "apply_loop ?p [0, 1] w") auto
  have "fst (apply_loop ?p [0, 1] w) = Return True"
    by (rule apply_loop_run [OF assms]) (simp_all add: patch_simps stale_file_bytes)
  with pre have r: "r = Return True" by simp
  from apply_loop_effect [OF assms pre] r
  have "map_of (fs w1) = (map_of (fs w))(?p \<mapsto> stale_file\<lparr>content := patched [0, 1] (content stale_file)\<rparr>)"
    by auto
  then have f1: "map_of (fs w1) ?p = Some (stale_file\<lparr>content := patched [0, 1] (content stale_file)\<rparr>)"
    by simp
  have rd: "first_byte (seek_read1 ?p 0x003FACF0 w1) = Inr 0x42"
    using read_byte_at [OF f1, of "0x003FACF0"]
    by (simp add: length_patched patched_simps patch_simps stale_file_bytes)
  have "apply_loop ?p ([0, 1] @ 2 # [3]) w =
      (Return False, print (Err_verification (2 + 1) 0xFF 0x003FACF0 0x42) w1)"
    by (rule apply_loop_stops [OF pre [unfolded r] patch_table(3) rd]) simp
  then show ?thesis by (simp add: apply_patches_def op del: apply_loop.simps)
qed

text \<open>
  Lines 176 to 180 of main, for any list of indices and any world: after a backup that
  was made, an apply_patches that returns False is followed by the copy of the backup
  over the target. When that copy gets through, the target is again the file it was
  before the backup and the script exits with code 1; when it is stopped part-way, it
  raises, and the backup still holds that file.
\<close>

lemma patch_phase_failure:
  assumes "create_backup p w = (Return b, w1)"
    and "apply_patches p needed (print (Applying (length needed)) w1) = (Return False, w2)"
  shows "\<exists>f. map_of (fs w) p = Some f \<and> b \<noteq> p \<and> map_of (fs w) b = None
      \<and> (fits (write_limit w p) (content f) \<longrightarrow>
           (\<exists>w'. patch_phase p needed w = (Exit 1, w')
              \<and> map_of (fs w') p = Some f \<and> map_of (fs w') b = Some f
              \<and> (\<forall>q. q \<noteq> p \<and> q \<noteq> b \<longrightarrow> map_of (fs w') q = map_of (fs w) q)
              \<and> trace w' = trace w2 @ [Print Patching_failed, Copy b p, Print Restored]))
      \<and> (\<not> fits (write_limit w p) (content f) \<longrightarrow>
           (\<exists>w'. patch_phase p needed w = (Raise OSError, w')
              \<and> map_of (fs w') b = Some f
              \<and> (\<forall>q. q \<noteq> p \<and> q \<noteq> b \<longrightarrow> map_of (fs w') q = map_of (fs w) q)
              \<and> trace w' = trace w2 @ [Print Patching_failed, Copy_broke b p]))"
proof -
  from create_backup_Return [OF assms(1)] obtain f where
    f: "map_of (fs w) p = Some f" "readable f"
    and b: "map_of (fs w) b = None" "b \<noteq> p"
    and w1: "w1 = w\<lparr>fs := AList.update b f (fs w),
                 trace := trace w @ [Copy p b, Print (Backup_created b)]\<rparr>"
    by blast
  let ?wa = "print (Applying (length needed)) w1"
  have fa: "map_of (fs ?wa) p = Some f"
    using f b by (simp add: w1 update_conv')
  from assms(2) have "open_rpb p ?wa = None"
    by (auto simp: apply_patches_def split: option.splits)
  with fa have wr: "writable f"
    by (simp add: open_rpb_def split: if_splits)
  from apply_patches_effect [OF fa assms(2)] obtain c' where
    fs2: "map_of (fs w2) = (map_of (fs ?wa))(p \<mapsto> f\<lparr>content := c'\<rparr>)"
    and wl: "write_limit w2 = write_limit ?wa"
    by blast
  let ?wf = "print Patching_failed w2"
  let ?g = "f\<lparr>content := c'\<rparr>"
  have src: "map_of (fs ?wf) b = Some f"
    using fs2 b by (simp add: w1 update_conv')
  have dst: "map_of (fs ?wf) p = Some ?g"
    using fs2 by simp
  have lim: "write_limit ?wf p = write_limit w p"
    using wl by (simp add: w1)
  have cp: "copy2 b p ?wf = write_copy b p f ?g ?wf"
    using src dst b f wr by (simp add: copy2_def)
  have step: "patch_phase p needed w =
      then_do (write_copy b p f ?g ?wf) (\<lambda>_ w3. (Exit 1, print Restored w3))"
    by (simp add: patch_phase_def assms then_do_def cp)
  have good: "fits (write_limit w p) (content f) \<longrightarrow>
           (\<exists>w'. patch_phase p needed w = (Exit 1, w')
              \<and> map_of (fs w') p = Some f \<and> map_of (fs w') b = Some f
              \<and> (\<forall>q. q \<noteq> p \<and> q \<noteq> b \<longrightarrow> map_of (fs w') q = map_of (fs w) q)
              \<and> trace w' = trace w2 @ [Print Patching_failed, Copy b p, Print Restored])"
  proof
    assume "fits (write_limit w p) (content f)"
    then have "fits (write_limit ?wf p) (content f)" by (simp only: lim)
    note wc = write_copy_whole [OF this, of b ?g]
    let ?w' = "print Restored
        (?wf\<lparr>fs := AList.update p f (fs ?wf), trace := trace ?wf @ [Copy b p]\<rparr>)"
    have run: "patch_phase p needed w = (Exit 1, ?w')"
      by (simp add: step wc then_do_def)
    have "map_of (fs ?w') p = Some f" by (simp add: update_conv')
    moreover have "map_of (fs ?w') b = Some f"
      using b fs2 by (simp add: update_conv' w1)
    moreover have "\<forall>q. q \<noteq> p \<and> q \<noteq> b \<longrightarrow> map_of (fs ?w') q = map_of (fs w) q"
      using fs2 by (simp add: update_conv' w1)
    moreover have "trace ?w' = trace w2 @ [Print Patching_failed, Copy b p, Print Restored]"
      by simp
    ultimately show "\<exists>w'. patch_phase p needed w = (Exit 1, w')
              \<and> map_of (fs w') p = Some f \<and> map_of (fs w') b = Some f
              \<and> (\<forall>q. q \<noteq> p \<and> q \<noteq> b \<longrightarrow> map_of (fs w') q = map_of (fs w) q)
              \<and> trace w' = trace w2 @ [Print Patching_failed, Copy b p, Print Restored]"
      using run by (intro exI [of _ ?w']) simp
  qed
  have bad: "\<not> fits (write_limit w p) (content f) \<longrightarrow>
           (\<exists>w'. patch_phase p needed w = (Raise OSError, w')
              \<and> map_of (fs w') b = Some f
              \<and> (\<forall>q. q \<noteq> p \<and> q \<noteq> b \<longrightarrow> map_of (fs w') q = map_of (fs w) q)
              \<and> trace w' = trace w2 @ [Print Patching_failed, Copy_broke b p])"
  proof
    assume "\<not> fits (write_limit w p) (content f)"
    with fits_cases [of "write_limit w p" "content f"] obtain n where
      "write_limit w p = Some n" "n < length (content f)" by blast
    then have n: "write_limit ?wf p = Some n" "n < length (content f)" by (simp_all only: lim)
    note wc = write_copy_broke [OF n, of b ?g]
    let ?w' = "?wf\<lparr>fs := AList.update p (?g\<lparr>content := take n (content f)\<rparr>) (fs ?wf),
                   trace := trace ?wf @ [Copy_broke b p]\<rparr>"
    have run: "patch_phase p needed w = (Raise OSError, ?w')"
      by (simp add: step wc then_do_def)
    have "map_of (fs ?w') b = Some f"
      using b fs2 by (simp add: update_conv' w1)
    moreover have "\<forall>q. q \<noteq> p \<and> q \<noteq> b \<longrightarrow> map_of (fs ?w') q = map_of (fs w) q"
      using fs2 by (simp add: update_conv' w1)
    moreover have "trace ?w' = trace w2 @ [Print Patching_failed, Copy_broke b p]"
      by simp
    ultimately show "\<exists>w'. patch_phase p needed w = (Raise OSError, w')
              \<and> map_of (fs w') b = Some f
              \<and> (\<forall>q. q \<noteq> p \<and> q \<noteq> b \<longrightarrow> map_of (fs w') q = map_of (fs w) q)
              \<and> trace w' = trace w2 @ [Print Patching_failed, Copy_broke b p]"
      using run by (intro exI [of _ ?w']) simp
  qed
  from f(1) b good bad show ?thesis by (intro exI [of _ f] conjI)
qed

lemma says_fields [simp]:
  "fs (says ms w) = fs w" "stdin (says ms w) = stdin w" "argv (says ms w) = argv w"
  "creatable (says ms w) = creatable w" "write_limit (says ms w) = write_limit w"
  "meanwhile (says ms w) = meanwhile w" "trace (says ms w) = trace w @ map Print ms"
  by (simp_all add: says_def)

lemma says_Nil [simp]: "says [] w = w"
  by (simp add: says_def)

lemma says_says [simp]: "says ms (says ms' w) = says (ms' @ ms) w"
  by (simp add: says_def)

lemma print_says: "print m w = says [m] w"
  by (simp add: says_def print_def)

lemma fs_events_simps [simp]:
  "fs_events [] = []"
  "fs_events (es @ es') = fs_events es @ fs_events es'"
  "fs_events (map Print ms) = []"
  "fs_events (Print m # es) = fs_events es"
  "fs_events (Input q r # es) = fs_events es"
  "fs_events (Write p off b # es) = Write p off b # fs_events es"
  "fs_events (Copy src dst # es) = Copy src dst # fs_events es"
  "fs_events (Copy_broke src dst # es) = Copy_broke src dst # fs_events es"
  by (simp_all add: fs_events_def)

lemma validate_file_says:
  "\<exists>r ms. \<forall>w. fs w = fsys \<longrightarrow> validate_file p w = (r, says ms w)"
proof (cases "map_of fsys p")
  case None
  then have "\<forall>w. fs w = fsys \<longrightarrow> validate_file p w = (Raise FileNotFoundError, says [] w)"
    by (simp add: validate_file_def)
  then show ?thesis by blast
next
  case (Some f)
  show ?thesis
  proof (cases "readable f \<and> writable f")
    case False
    with Some have "\<forall>w. fs w = fsys \<longrightarrow> validate_file p w = (Raise PermissionError, says [] w)"
      by (auto simp: validate_file_def)
    then show ?thesis by blast
  next
    case True
    with Some have "\<forall>w. fs w = fsys \<longrightarrow> validate_file p w =
        (Return (), says (if length (content f) < 1000000 then [Warn_small (length (content f))] else []) w)"
      by (auto simp: validate_file_def Let_def print_says)
    then show ?thesis by blast
  qed
qed

lemma verify_loop_says:
  "\<exists>r ms. \<forall>w. fs w = fsys \<longrightarrow> verify_loop p ps needed applied w = (r, says ms w)"
proof (induction ps arbitrary: needed applied)
  case Nil
  have "\<forall>w. fs w = fsys \<longrightarrow> verify_loop p [] needed applied w = (Return (needed, applied), says [] w)"
    by simp
  then show ?case by blast
next
  case (Cons x ps)
  obtain i off ob nb where x: "x = (i, off, ob, nb)" by (cases x) auto
  let ?rd = "first_byte (case map_of fsys p of None \<Rightarrow> [] | Some f \<Rightarrow> take 1 (drop off (content f)))"
  have rd: "fs w = fsys \<Longrightarrow> first_byte (seek_read1 p off w) = ?rd" for w :: world
    by (simp add: seek_read1_def)
  show ?case
  proof (cases ?rd)
    case (Inl e)
    then have "\<forall>w. fs w = fsys \<longrightarrow> verify_loop p (x # ps) needed applied w = (Raise e, says [] w)"
      using rd by (simp add: x)
    then show ?thesis by blast
  next
    case (Inr b)
    consider "b = ob" | "b \<noteq> ob" "b = nb" | "b \<noteq> ob" "b \<noteq> nb" by blast
    then show ?thesis
    proof cases
      case 1
      from Cons.IH [of "needed @ [i]" applied] obtain r ms where
        "\<forall>w. fs w = fsys \<longrightarrow> verify_loop p ps (needed @ [i]) applied w = (r, says ms w)" by blast
      with Inr 1 rd have "\<forall>w. fs w = fsys \<longrightarrow> verify_loop p (x # ps) needed applied w = (r, says ms w)"
        by (simp add: x)
      then show ?thesis by blast
    next
      case 2
      from Cons.IH [of needed "applied @ [i]"] obtain r ms where
        "\<forall>w. fs w = fsys \<longrightarrow> verify_loop p ps needed (applied @ [i]) w = (r, says ms w)" by blast
      with Inr 2 rd have "\<forall>w. fs w = fsys \<longrightarrow> verify_loop p (x # ps) needed applied w = (r, says ms w)"
        by (simp add: x)
      then show ?thesis by blast
    next
      case 3
      from Cons.IH [of needed applied] obtain r ms where
        ih: "\<forall>w. fs w = fsys \<longrightarrow> verify_loop p ps needed applied w = (r, says ms w)" by blast
      have "\<forall>w. fs w = fsys \<longrightarrow> verify_loop p (x # ps) needed applied w =
          (r, says (Warn_unexpected (i + 1) off b ob nb # ms) w)"
      proof (intro allI impI)
        fix w :: world
        assume w: "fs w = fsys"
        then have "fs (print (Warn_unexpected (i + 1) off b ob nb) w) = fsys" by simp
        with ih have "verify_loop p ps needed applied (print (Warn_unexpected (i + 1) off b ob nb) w)
            = (r, says ms (print (Warn_unexpected (i + 1) off b ob nb) w))" by blast
        with Inr 3 rd [OF w] show "verify_loop p (x # ps) needed applied w =
          (r, says (Warn_unexpected (i + 1) off b ob nb # ms) w)"
          by (simp add: x print_says)
      qed
      then show ?thesis by blast
    qed
  qed
qed

lemma verify_patches_says:
  "\<exists>r ms. \<forall>w. fs w = fsys \<longrightarrow> verify_patches p w = (r, says ms w)"
proof (cases "case map_of fsys p of None \<Rightarrow> Some FileNotFoundError
        | Some f \<Rightarrow> if readable f then None else Some PermissionError")
  case None
  from verify_loop_says [of fsys p "enumerate_py PATCHES" "[]" "[]"] obtain r ms where
    "\<forall>w. fs w = fsys \<longrightarrow> verify_loop p (enumerate_py PATCHES) [] [] w = (r, says ms w)" by blast
  with None have "\<forall>w. fs w = fsys \<longrightarrow> verify_patches p w = (r, says ms w)"
    by (simp add: verify_patches_def open_rb_def)
  then show ?thesis by blast
next
  case (Some e)
  then have "\<forall>w. fs w = fsys \<longrightarrow> verify_patches p w = (Raise e, says [] w)"
    by (simp add: verify_patches_def open_rb_def)
  then show ?thesis by blast
qed

lemma verify_loop_short:
  assumes "map_of (fs w) p = Some f"
    and "\<exists>(i, off, ob, nb) \<in> set ps. length (content f) \<le> off"
  shows "fst (verify_loop p ps needed applied w) = Raise IndexError"
  using assms
proof (induction ps arbitrary: needed applied w)
  case Nil
  then show ?case by simp
next
  case (Cons x ps)
  obtain i off ob nb where x: "x = (i, off, ob, nb)" by (cases x) auto
  show ?case
  proof (cases "off < length (content f)")
    case False
    with Cons.prems(1) show ?thesis by (simp add: x read_byte_at)
  next
    case True
    with Cons.prems(2) have rest: "\<exists>(i, off, ob, nb) \<in> set ps. length (content f) \<le> off"
      by (auto simp: x)
    have pf: "map_of (fs (print m w)) p = Some f" for m using Cons.prems(1) by simp
    from True Cons.prems(1) have rd: "first_byte (seek_read1 p off w) = Inr (content f ! off)"
      by (simp add: read_byte_at)
    show ?thesis
      using Cons.IH [OF Cons.prems(1) rest] Cons.IH [OF pf rest]
      by (simp add: x rd)
  qed
qed

lemma enumerate_py_mem:
  assumes "x \<in> set xs"
  shows "\<exists>i. (i, x) \<in> set (enumerate_py xs)"
proof -
  from assms obtain n where n: "n < length xs" "xs ! n = x"
    by (auto simp: in_set_conv_nth)
  then have "(int n, x) \<in> set (enumerate_py xs)"
    unfolding enumerate_py_def set_zip by (auto intro!: exI [of _ n])
  then show ?thesis ..
qed

lemma verify_patches_short:
  assumes "map_of (fs w) p = Some f" and "readable f"
    and "(offset, ob, nb) \<in> set PATCHES" and "length (content f) \<le> offset"
  shows "fst (verify_patches p w) = Raise IndexError"
proof -
  have "\<exists>i. (i, offset, ob, nb) \<in> set (enumerate_py PATCHES)"
    using assms(3) by (rule enumerate_py_mem)
  then obtain i where "(i, offset, ob, nb) \<in> set (enumerate_py PATCHES)" ..
  with assms(4) have "\<exists>(i, off, ob, nb) \<in> set (enumerate_py PATCHES). length (content f) \<le> off"
    by auto
  from verify_loop_short [OF assms(1) this] assms(1,2) show ?thesis
    by (simp add: verify_patches_def open_rb_def)
qed

lemma target_path_says [simp]: "target_path (says ms w) = target_path w"
  by (simp add: target_path_def find_money_dll_def)

lemma main_via_try:
  assumes "target_path w = Some p"
  shows "main w =
     (case main_try p (says [Banner, Rule, Target_file p] w) of
        (Return u, w') \<Rightarrow> (0, w')
      | (Raise e, w') \<Rightarrow> (1, print (Error_line e) w')
      | (Exit c, w') \<Rightarrow> (c, w'))"
  using assms by (simp add: main_def Let_def print_says)

lemma validate_file_ok:
  assumes "map_of (fs w) p = Some f" and "readable f" and "writable f"
  shows "validate_file p w =
     (Return (), says (if length (content f) < 1000000 then [Warn_small (length (content f))]
                       else []) w)"
  using assms by (simp add: validate_file_def Let_def print_says)

lemma validate_file_Return:
  assumes "fst (validate_file p w) = Return ()"
  shows "\<exists>f. map_of (fs w) p = Some f \<and> readable f \<and> writable f"
  using assms by (auto simp: validate_file_def Let_def split: option.splits if_splits)

lemma verify_patches_transfer:
  assumes "fs w' = fs w"
  shows "\<exists>ms. verify_patches p w = (fst (verify_patches p w), says ms w)
      \<and> verify_patches p w' = (fst (verify_patches p w), says ms w')"
proof -
  from verify_patches_says [of "fs w" p] obtain r ms where
    u: "\<forall>v. fs v = fs w \<longrightarrow> verify_patches p v = (r, says ms v)" by blast
  then have "verify_patches p w = (r, says ms w)" by simp
  moreover from u assms have "verify_patches p w' = (r, says ms w')" by simp
  ultimately show ?thesis by auto
qed

text \<open>
  C10. When the target file ends at or before some patch offset, the read of one byte at
  that offset is empty and taking its first byte raises IndexError; verify_patches
  raises instead of returning lists, main catches the exception and exits with code 1,
  and no file is changed. The size check only adds its warning line to the output of a
  file shorter than 1,000,000 bytes.
\<close>

theorem short_file_exits_with_1:
  assumes "target_path w = Some p" and "map_of (fs w) p = Some f"
    and "(offset, ob, nb) \<in> set PATCHES" and "length (content f) \<le> offset"
  shows "seek_read1 p offset w = []
    \<and> first_byte (seek_read1 p offset w) = Inl IndexError
    \<and> (readable f \<longrightarrow> fst (verify_patches p w) = Raise IndexError)
    \<and> fst (main w) = 1
    \<and> fs (snd (main w)) = fs w
    \<and> (readable f \<and> writable f \<longrightarrow>
         (\<exists>ms. trace (snd (main w)) =
            trace w @ map Print
              ([Banner, Rule, Target_file p]
               @ (if length (content f) < 1000000 then [Warn_small (length (content f))] else [])
               @ ms @ [Error_line IndexError])))"
proof -
  let ?wt = "says [Banner, Rule, Target_file p] w"
  let ?vm = "if length (content f) < 1000000 then [Warn_small (length (content f))] else []"
  have rd: "seek_read1 p offset w = []"
    using assms(2,4) by (simp add: seek_read1_def)
  then have fb: "first_byte (seek_read1 p offset w) = Inl IndexError"
    by (simp add: first_byte_def)
  have vs: "readable f \<longrightarrow> fst (verify_patches p w) = Raise IndexError"
    using verify_patches_short [OF assms(2) _ assms(3,4)] by simp
  have ft: "map_of (fs ?wt) p = Some f" using assms(2) by simp
  show ?thesis
  proof (cases "readable f \<and> writable f")
    case False
    with ft have "validate_file p ?wt = (Raise PermissionError, ?wt)"
      by (auto simp: validate_file_def)
    then have "main w = (1, print (Error_line PermissionError) ?wt)"
      by (simp add: main_via_try [OF assms(1)] main_try_def then_do_def)
    with rd fb vs False show ?thesis by simp
  next
    case True
    then have v1: "validate_file p ?wt = (Return (), says ?vm ?wt)"
      using validate_file_ok [OF ft] by simp
    have f1: "map_of (fs (says ?vm ?wt)) p = Some f" using assms(2) by simp
    from verify_patches_says [of "fs w" p] obtain r ms where
      u: "\<forall>v. fs v = fs w \<longrightarrow> verify_patches p v = (r, says ms v)" by blast
    then have v2: "verify_patches p (says ?vm ?wt) = (r, says ms (says ?vm ?wt))" by simp
    have "fst (verify_patches p (says ?vm ?wt)) = Raise IndexError"
      using verify_patches_short [OF f1 _ assms(3,4)] True by simp
    with v2 have r: "r = Raise IndexError" by simp
    have "main w = (1, print (Error_line IndexError) (says ms (says ?vm ?wt)))"
      by (simp add: main_via_try [OF assms(1)] main_try_def then_do_def v1 v2 [unfolded r]
          del: says_says)
    then have m: "main w = (1, says ([Banner, Rule, Target_file p] @ ?vm @ ms @ [Error_line IndexError]) w)"
      by (simp add: print_says)
    have "\<exists>ms. trace (snd (main w)) =
            trace w @ map Print ([Banner, Rule, Target_file p] @ ?vm @ ms @ [Error_line IndexError])"
      unfolding m by (intro exI [of _ ms]) simp
    moreover have "fst (main w) = 1" "fs (snd (main w)) = fs w"
      unfolding m by simp_all
    ultimately show ?thesis using rd fb vs by simp
  qed
qed

theorem short_file_exits_with_1_witness:
  "fst (main crowded_world) = 1 \<and> fs (snd (main crowded_world)) = crowded_fs
   \<and> fst (verify_patches ''m.dll'' crowded_world) = Raise IndexError
   \<and> Print (Warn_small 3) \<in> set (trace (snd (main crowded_world)))"
proof -
  have tp: "target_path crowded_world = Some ''m.dll''"
    by (simp add: target_path_def crowded_world_def)
  have fl: "map_of (fs crowded_world) ''m.dll''
      = Some \<lparr>content = [1, 2, 3], readable = True, writable = True\<rparr>"
    by (simp add: crowded_world_def crowded_fs_def)
  have pt: "(0x003FACE8, 0x85, 0x8D) \<in> set PATCHES" by (simp add: PATCHES_def)
  from short_file_exits_with_1 [OF tp fl pt]
  show ?thesis by (auto simp: crowded_world_def)
qed

lemma main_nothing_to_do:
  assumes "target_path w = Some p"
    and "fst (validate_file p w) = Return ()"
    and "fst (verify_patches p w) = Return ([], applied)"
    and "applied \<noteq> []"
  shows "fst (main w) = 0
    \<and> fs (snd (main w)) = fs w
    \<and> stdin (snd (main w)) = stdin w
    \<and> (\<exists>es. trace (snd (main w)) = trace w @ es @ [Print All_applied] \<and> fs_events es = [])"
proof -
  let ?wt = "says [Banner, Rule, Target_file p] w"
  from validate_file_Return [OF assms(2)] obtain f where
    f: "map_of (fs w) p = Some f" "readable f" "writable f" by blast
  let ?vm = "if length (content f) < 1000000 then [Warn_small (length (content f))] else []"
  have ft: "map_of (fs ?wt) p = Some f" using f by simp
  have v1: "validate_file p ?wt = (Return (), says ?vm ?wt)"
    using validate_file_ok [OF ft f(2,3)] by simp
  from verify_patches_transfer [of "says ?vm ?wt" w p] assms(3) obtain ms where
    v2: "verify_patches p (says ?vm ?wt) = (Return ([], applied), says ms (says ?vm ?wt))"
    by auto
  have "main w = (0, print All_applied (says ms (says ?vm ?wt)))"
    using assms(4)
    by (simp add: main_via_try [OF assms(1)] main_try_def then_do_def v1 v2 del: says_says)
  then have m: "main w = (0, says ([Banner, Rule, Target_file p] @ ?vm @ ms @ [All_applied]) w)"
    by (simp add: print_says)
  have "trace (snd (main w)) =
      trace w @ map Print ([Banner, Rule, Target_file p] @ ?vm @ ms) @ [Print All_applied]
      \<and> fs_events (map Print ([Banner, Rule, Target_file p] @ ?vm @ ms)) = []"
    unfolding m by simp
  then have "\<exists>es. trace (snd (main w)) = trace w @ es @ [Print All_applied] \<and> fs_events es = []"
    by (intro exI [of _ "map Print ([Banner, Rule, Target_file p] @ ?vm @ ms)"])
  moreover have "fst (main w) = 0" "fs (snd (main w)) = fs w" "stdin (snd (main w)) = stdin w"
    unfolding m by simp_all
  ultimately show ?thesis by simp
qed

text \<open>
  C7. When validation passes and verify_patches returns an empty first list and a second
  list that is not empty, main reports that all patches are already applied and exits
  with code 0; it asks nothing, makes no backup and writes no byte: the file system is
  the one it started with and the run neither copied nor wrote.
\<close>

theorem nothing_to_do_exits_with_0:
  assumes "target_path w = Some p"
    and "fst (validate_file p w) = Return ()"
    and "fst (verify_patches p w) = Return ([], applied)"
    and "applied \<noteq> []"
  shows "fst (main w) = 0
    \<and> fs (snd (main w)) = fs w
    \<and> stdin (snd (main w)) = stdin w
    \<and> (\<exists>es. trace (snd (main w)) = trace w @ es @ [Print All_applied] \<and> fs_events es = [])"
  by (rule main_nothing_to_do [OF assms])

lemma patched_file_bytes:
  "length (content patched_file) = 4173047"
  "content patched_file ! 0x003FACE8 = 0x8D" "content patched_file ! 0x003FACED = 0x51"
  "content patched_file ! 0x003FACF0 = 0x85" "content patched_file ! 0x003FACF6 = 0xB9"
  "readable patched_file" "writable patched_file"
  by (simp_all add: patched_file_def blank_simps)

theorem nothing_to_do_exits_with_0_witness:
  "fst (main patched_world) = 0 \<and> fs (snd (main patched_world)) = [(''mnyob99.dll'', patched_file)]
   \<and> stdin (snd (main patched_world)) = [''y'']"
proof -
  have tp: "target_path patched_world = Some ''mnyob99.dll''"
    by (simp add: target_path_def patched_world_def)
  have fl: "map_of (fs patched_world) ''mnyob99.dll'' = Some patched_file"
    by (simp add: patched_world_def)
  have va: "fst (validate_file ''mnyob99.dll'' patched_world) = Return ()"
    using validate_file_ok [OF fl] by (simp add: patched_file_bytes)
  have ve: "fst (verify_patches ''mnyob99.dll'' patched_world) = Return ([], [0, 1, 2, 3])"
    using verify_patches_result [OF fl]
    by (simp add: patched_file_bytes classify_byte_def patch_simps)
  from nothing_to_do_exits_with_0 [OF tp va ve]
  show ?thesis by (simp add: patched_world_def)
qed

lemma main_try_quiet:
  assumes "\<not> (fst (validate_file p w) = Return ()
      \<and> (\<exists>needed applied. fst (verify_patches p w) = Return (needed, applied) \<and> needed \<noteq> [])
      \<and> (\<exists>r rest. stdin w = r # rest \<and> lower r = ''y''))"
  shows "fst (main_try p w) \<noteq> Return () \<and> only_talked w (snd (main_try p w))"
proof -
  from validate_file_says [of "fs w" p] obtain r1 ms1 where
    v1: "validate_file p w = (r1, says ms1 w)" by auto
  from verify_patches_transfer [of "says ms1 w" w p] obtain ms2 where
    v2: "verify_patches p (says ms1 w) = (fst (verify_patches p w), says ms2 (says ms1 w))"
    by auto
  show ?thesis
  proof (cases r1)
    case (Return u)
    show ?thesis
    proof (cases "fst (verify_patches p w)")
      case vr: (Return na)
      obtain needed applied where na: "na = (needed, applied)" by (cases na) auto
      show ?thesis
      proof (cases "needed = []")
        case True
        then show ?thesis
          by (auto simp: main_try_def then_do_def v1 v2 Return vr na input_def
              only_talked_def split: list.splits simp del: says_says)
      next
        case False
        with assms v1 Return vr na
        have "stdin w = [] \<or> (\<exists>r rest. stdin w = r # rest \<and> lower r \<noteq> ''y'')"
          by (cases "stdin w") auto
        with False show ?thesis
          by (auto simp: main_try_def then_do_def v1 v2 Return vr na input_def Let_def
              only_talked_def split: list.splits simp del: says_says)
      qed
    qed (auto simp: main_try_def then_do_def v1 v2 Return only_talked_def
          simp del: says_says)
  qed (auto simp: main_try_def then_do_def v1 only_talked_def)
qed

lemma main_try_reaches:
  assumes "fst (validate_file p w) = Return ()"
    and "fst (verify_patches p w) = Return (needed, applied)" and "needed \<noteq> []"
    and "stdin w = r # rest" and "lower r = ''y''"
  shows "\<exists>w6. main_try p w = patch_phase p needed w6 \<and> only_talked w w6 \<and> stdin w6 = rest
     \<and> fs w6 = meanwhile w (fs w)
     \<and> (\<exists>es. trace w6 = trace w @ es @ [Input Continue_plain r] \<and> fs_events es = [])"
proof -
  from validate_file_says [of "fs w" p] assms(1) obtain ms1 where
    v1: "validate_file p w = (Return (), says ms1 w)" by auto
  from verify_patches_transfer [of "says ms1 w" w p] assms(2) obtain ms2 where
    v2: "verify_patches p (says ms1 w) = (Return (needed, applied), says ms2 (says ms1 w))"
    by auto
  let ?w3 = "says ms2 (says ms1 w)"
  let ?w4 = "if applied \<noteq> [] then print (Found_applied (length applied)) ?w3 else ?w3"
  let ?w5 = "print Will_modify (print (Found_needed (length needed)) ?w4)"
  let ?w6 = "?w5\<lparr>stdin := rest, fs := meanwhile ?w5 (fs ?w5),
                 trace := trace ?w5 @ [Input Continue_plain r]\<rparr>"
  have "main_try p w = patch_phase p needed ?w6"
    using assms(3,4,5)
    by (simp add: main_try_def then_do_def v1 v2 input_def Let_def del: says_says)
  moreover have "only_talked w ?w6"
    by (simp add: only_talked_def)
  moreover have "stdin ?w6 = rest" by simp
  moreover have "fs ?w6 = meanwhile w (fs w)" by simp
  moreover have "\<exists>es. trace ?w6 = trace w @ es @ [Input Continue_plain r] \<and> fs_events es = []"
  proof (cases "applied \<noteq> []")
    case True
    then have "trace ?w6 = trace w @ (map Print ms1 @ map Print ms2
        @ [Print (Found_applied (length applied)), Print (Found_needed (length needed)),
           Print Will_modify]) @ [Input Continue_plain r]"
      by simp
    moreover have "fs_events (map Print ms1 @ map Print ms2
        @ [Print (Found_applied (length applied)), Print (Found_needed (length needed)),
           Print Will_modify]) = []"
      by simp
    ultimately show ?thesis by blast
  next
    case False
    then have "trace ?w6 = trace w @ (map Print ms1 @ map Print ms2
        @ [Print (Found_needed (length needed)), Print Will_modify])
        @ [Input Continue_plain r]"
      by simp
    moreover have "fs_events (map Print ms1 @ map Print ms2
        @ [Print (Found_needed (length needed)), Print Will_modify]) = []"
      by simp
    ultimately show ?thesis by blast
  qed
  ultimately show ?thesis by blast
qed

lemma seek_write1_trace:
  "\<exists>ws. trace (seek_write1 p off b w) = trace w @ ws
     \<and> fs_events ws = map (\<lambda>(q, off, b). Write q off b) (writes_of ws)"
proof (cases "map_of (fs w) p")
  case None
  then have "trace (seek_write1 p off b w) = trace w @ []" by (simp add: seek_write1_def)
  then show ?thesis by (intro exI [of _ "[]"]) simp
next
  case (Some f)
  then have "trace (seek_write1 p off b w) = trace w @ [Write p off b]"
    by (simp add: seek_write1_def)
  then show ?thesis by (intro exI [of _ "[Write p off b]"]) simp
qed

lemma apply_loop_trace:
  "apply_loop p idxs w = (r, w') \<Longrightarrow>
     \<exists>es. trace w' = trace w @ es
       \<and> fs_events es = map (\<lambda>(q, off, b). Write q off b) (writes_of es)"
proof (induction idxs arbitrary: w)
  case Nil
  then show ?case by simp
next
  case (Cons i rest)
  have quiet: ?case if "w' = w \<or> (\<exists>m. w' = print m w)"
  proof -
    from that consider "w' = w" | m where "w' = print m w" by blast
    then show ?thesis
    proof cases
      case 1
      then show ?thesis by simp
    next
      case 2
      then have "trace w' = trace w @ [Print m]" by simp
      then show ?thesis by (intro exI [of _ "[Print m]"]) simp
    qed
  qed
  show ?case
  proof (cases "py_index PATCHES i")
    case None
    with Cons.prems quiet show ?thesis by simp
  next
    case (Some x)
    obtain off ob nb where x: "x = (off, ob, nb)" by (cases x) auto
    show ?thesis
    proof (cases "first_byte (seek_read1 p off w)")
      case (Inl e)
      with Cons.prems Some x quiet show ?thesis by simp
    next
      case (Inr c)
      show ?thesis
      proof (cases "c = ob")
        case False
        with Cons.prems Some x Inr quiet show ?thesis by auto
      next
        case True
        let ?w2 = "print (Patch_changed (i + 1) off ob nb) (seek_write1 p off nb w)"
        from Cons.prems Some x Inr True have "apply_loop p rest ?w2 = (r, w')" by simp
        from Cons.IH [OF this] obtain es where
          es: "trace w' = trace ?w2 @ es"
            "fs_events es = map (\<lambda>(q, off, b). Write q off b) (writes_of es)" by blast
        from seek_write1_trace [of p off nb w] obtain ws where
          ws: "trace (seek_write1 p off nb w) = trace w @ ws"
            "fs_events ws = map (\<lambda>(q, off, b). Write q off b) (writes_of ws)" by blast
        let ?es = "ws @ [Print (Patch_changed (i + 1) off ob nb)] @ es"
        have "trace w' = trace w @ ?es" using es(1) ws(1) by simp
        moreover have "fs_events ?es = map (\<lambda>(q, off, b). Write q off b) (writes_of ?es)"
          using es(2) ws(2) by (simp add: writes_of_append)
        ultimately show ?thesis by blast
      qed
    qed
  qed
qed

lemma apply_patches_trace:
  assumes "apply_patches p idxs w = (r, w')"
  shows "\<exists>es. trace w' = trace w @ es
       \<and> fs_events es = map (\<lambda>(q, off, b). Write q off b) (writes_of es)"
proof (cases "open_rpb p w")
  case None
  with assms have "apply_loop p idxs w = (r, w')" by (simp add: apply_patches_def)
  then show ?thesis by (rule apply_loop_trace)
next
  case (Some e)
  with assms have "w' = w" by (simp add: apply_patches_def)
  then show ?thesis by simp
qed

lemma create_backup_transfer:
  assumes "fs w' = fs w" and "creatable w' = creatable w"
    and "write_limit w' = write_limit w"
  shows "fst (create_backup p w') = fst (create_backup p w)"
    and "fs (snd (create_backup p w')) = fs (snd (create_backup p w))"
  using assms
  by (auto simp: create_backup_def copy2_def write_copy_def then_do_def Let_def
      split: option.splits)

lemma create_backup_Raise:
  assumes "create_backup p w = (Raise e, w')"
  shows "(\<forall>q. path_exists (fs w) q \<longrightarrow> map_of (fs w') q = map_of (fs w) q)
     \<and> map_of (fs w') p = map_of (fs w) p
     \<and> stdin w' = stdin w \<and> argv w' = argv w
     \<and> (\<exists>es. trace w' = trace w @ es \<and> (es = [] \<or> (\<exists>b. es = [Copy_broke p b])))"
proof -
  from free_backup_name_exists [of "fs w" p] obtain k
    where free: "\<not> path_exists (fs w) (backup_name p k)"
      and taken: "\<forall>j<k. path_exists (fs w) (backup_name p j)"
    by blast
  let ?b = "backup_name p k"
  from create_backup_cases [OF free taken] assms
  consider "w' = w"
    | g where "w' = w\<lparr>fs := AList.update ?b g (fs w), trace := trace w @ [Copy_broke p ?b]\<rparr>"
    by auto
  then show ?thesis
  proof cases
    case 1
    then show ?thesis by simp
  next
    case 2
    have "\<forall>q. path_exists (fs w) q \<longrightarrow> map_of (fs w') q = map_of (fs w) q"
    proof (intro allI impI)
      fix q assume "path_exists (fs w) q"
      with free have "q \<noteq> ?b" by auto
      then show "map_of (fs w') q = map_of (fs w) q" by (simp add: 2 update_conv')
    qed
    moreover have "map_of (fs w') p = map_of (fs w) p"
      using backup_name_differs [of p k] by (simp add: 2 update_conv')
    moreover have "stdin w' = stdin w" "argv w' = argv w" by (simp_all add: 2)
    moreover have "trace w' = trace w @ [Copy_broke p ?b]" by (simp add: 2)
    ultimately show ?thesis by blast
  qed
qed

lemma create_backup_outcomes:
  "(\<exists>b w1. create_backup p w = (Return b, w1)) \<or> (\<exists>e w1. create_backup p w = (Raise e, w1))"
proof -
  from free_backup_name_exists [of "fs w" p] obtain k
    where free: "\<not> path_exists (fs w) (backup_name p k)"
      and taken: "\<forall>j<k. path_exists (fs w) (backup_name p j)"
    by blast
  from create_backup_cases [OF free taken] show ?thesis by blast
qed

lemma patch_phase_success:
  assumes f: "map_of (fs w) p = Some f" "readable f" "writable f"
    and idx: "distinct needed" "set needed \<subseteq> {0, 1, 2, 3}"
      "\<forall>i \<in> set needed. offset_of i < length (content f)
           \<and> content f ! offset_of i = original_of i"
    and bk: "\<not> path_exists (fs w) (backup_name p k)"
      "\<forall>j<k. path_exists (fs w) (backup_name p j)" "creatable w (backup_name p k)"
      "fits (write_limit w (backup_name p k)) (content f)"
  shows "\<exists>w' es. patch_phase p needed w = (Return (), w')
     \<and> map_of (fs w') = (map_of (fs w))
          (backup_name p k \<mapsto> f, p \<mapsto> f\<lparr>content := patched needed (content f)\<rparr>)
     \<and> stdin w' = stdin w \<and> argv w' = argv w
     \<and> trace w' = trace w @ es @ [Print (Completed (backup_name p k))]
     \<and> fs_events es = Copy p (backup_name p k)
          # map (\<lambda>i. Write p (offset_of i) (replacement_of i)) needed"
proof -
  let ?b = "backup_name p k"
  let ?w1 = "w\<lparr>fs := AList.update ?b f (fs w),
               trace := trace w @ [Copy p ?b, Print (Backup_created ?b)]\<rparr>"
  from create_backup_cases [OF bk(1,2)] f bk(3,4)
  have cb: "create_backup p w = (Return ?b, ?w1)" by (auto simp: fits_def)
  let ?wa = "print (Applying (length needed)) ?w1"
  have bp: "?b \<noteq> p" by (rule backup_name_differs)
  have fa: "map_of (fs ?wa) p = Some f"
    using f(1) bp by (simp add: update_conv')
  have op: "open_rpb p ?wa = None"
    using fa f(2,3) by (simp add: open_rpb_def)
  obtain r w2 where ap: "apply_loop p needed ?wa = (r, w2)"
    by (cases "apply_loop p needed ?wa") auto
  have "fst (apply_loop p needed ?wa) = Return True"
    by (rule apply_loop_run [OF fa idx])
  with ap have r: "r = Return True" by simp
  from apply_loop_effect [OF fa ap] r have
    fs2: "map_of (fs w2) = (map_of (fs ?wa))(p \<mapsto> f\<lparr>content := patched needed (content f)\<rparr>)"
    and wr: "writes_of (trace w2) =
         writes_of (trace ?wa) @ map (\<lambda>i. (p, offset_of i, replacement_of i)) needed"
    and st: "stdin w2 = stdin ?wa" "argv w2 = argv ?wa"
    by auto
  from apply_loop_trace [OF ap] obtain es2 where
    es2: "trace w2 = trace ?wa @ es2"
      "fs_events es2 = map (\<lambda>(q, off, b). Write q off b) (writes_of es2)" by blast
  from wr es2(1) have "writes_of es2 = map (\<lambda>i. (p, offset_of i, replacement_of i)) needed"
    by (simp add: writes_of_append)
  with es2(2) have fe: "fs_events es2 = map (\<lambda>i. Write p (offset_of i) (replacement_of i)) needed"
    by simp
  let ?es = "[Copy p ?b, Print (Backup_created ?b), Print (Applying (length needed))] @ es2"
  let ?w' = "print (Completed ?b) w2"
  have run: "patch_phase p needed w = (Return (), ?w')"
    by (simp add: patch_phase_def then_do_def cb apply_patches_def op ap r)
  have "map_of (fs ?w') = (map_of (fs w))(?b \<mapsto> f, p \<mapsto> f\<lparr>content := patched needed (content f)\<rparr>)"
    using fs2 by (simp add: update_conv')
  moreover have "stdin ?w' = stdin w" "argv ?w' = argv w" using st by simp_all
  moreover have "trace ?w' = trace w @ ?es @ [Print (Completed ?b)]"
    using es2(1) by simp
  moreover have "fs_events ?es = Copy p ?b # map (\<lambda>i. Write p (offset_of i) (replacement_of i)) needed"
    using fe by simp
  ultimately show ?thesis using run by blast
qed

lemma copy2_trace:
  "copy2 src dst w = (r, w') \<Longrightarrow>
     \<exists>es. trace w' = trace w @ es
       \<and> (es = [] \<or> es = [Copy src dst] \<or> es = [Copy_broke src dst])"
  by (auto simp: copy2_def write_copy_def Let_def split: option.splits if_splits)

lemma patch_phase_events:
  assumes "patch_phase p needed w = (r, w')"
  shows "\<exists>es. trace w' = trace w @ es
    \<and> ((\<forall>q off v. Write q off v \<notin> set es)
         \<and> (\<exists>e. r = Raise e \<and> fst (create_backup p w) = Raise e)
       \<or> (\<exists>b rest. es = Copy p b # rest \<and> fst (create_backup p w) = Return b
             \<and> \<not> path_exists (fs w) b
             \<and> (\<forall>q off v. Write q off v \<in> set rest \<longrightarrow> q = p)))"
proof -
  from create_backup_outcomes [of p w] show ?thesis
  proof (elim disjE exE)
    fix e w1 assume cb: "create_backup p w = (Raise e, w1)"
    with assms have rw: "r = Raise e" "w' = w1" by (simp_all add: patch_phase_def then_do_def)
    from create_backup_Raise [OF cb] obtain es where
      "trace w1 = trace w @ es" "es = [] \<or> (\<exists>b. es = [Copy_broke p b])" by blast
    then have "trace w' = trace w @ es" "\<forall>q off v. Write q off v \<notin> set es"
      using rw by auto
    with cb rw show ?thesis by auto
  next
    fix b w1 assume cb: "create_backup p w = (Return b, w1)"
    from create_backup_Return [OF cb] obtain f where
      b: "map_of (fs w) b = None"
      and w1: "w1 = w\<lparr>fs := AList.update b f (fs w),
                 trace := trace w @ [Copy p b, Print (Backup_created b)]\<rparr>"
      by blast
    let ?wa = "print (Applying (length needed)) w1"
    obtain r2 w2 where ap: "apply_patches p needed ?wa = (r2, w2)"
      by (cases "apply_patches p needed ?wa") auto
    from apply_patches_trace [OF ap] obtain es2 where
      es2: "trace w2 = trace ?wa @ es2"
        "fs_events es2 = map (\<lambda>(q, off, b). Write q off b) (writes_of es2)" by blast
    obtain n where wr: "writes_of (trace w2) =
         writes_of (trace ?wa) @ map (\<lambda>i. (p, offset_of i, replacement_of i)) (take n needed)"
    proof (cases "map_of (fs ?wa) p")
      case None
      then have "open_rpb p ?wa = Some FileNotFoundError" by (simp add: open_rpb_def)
      with ap have "w2 = ?wa" by (simp add: apply_patches_def)
      then have "writes_of (trace w2) =
         writes_of (trace ?wa) @ map (\<lambda>i. (p, offset_of i, replacement_of i)) (take 0 needed)"
        by simp
      then show ?thesis by (rule that)
    next
      case (Some g)
      from apply_patches_effect [OF Some ap] obtain n where "writes_of (trace w2) =
         writes_of (trace ?wa) @ map (\<lambda>i. (p, offset_of i, replacement_of i)) (take n needed)"
        by blast
      then show ?thesis by (rule that)
    qed
    from wr es2(1) have we: "writes_of es2 = map (\<lambda>i. (p, offset_of i, replacement_of i)) (take n needed)"
      by (simp add: writes_of_append)
    have own: "\<forall>q off v. Write q off v \<in> set es2 \<longrightarrow> q = p"
    proof (intro allI impI)
      fix q off v assume "Write q off v \<in> set es2"
      then have "Write q off v \<in> set (fs_events es2)" by (simp add: fs_events_def)
      with es2(2) we show "q = p" by auto
    qed
    have tail: "\<exists>tl. trace w' = trace w2 @ tl \<and> (\<forall>q off v. Write q off v \<notin> set tl)"
    proof (cases r2)
      case (Return ok)
      show ?thesis
      proof (cases ok)
        case True
        with assms cb ap Return have "w' = print (Completed b) w2"
          by (simp add: patch_phase_def then_do_def)
        then have "trace w' = trace w2 @ [Print (Completed b)]" by simp
        then show ?thesis by (intro exI [of _ "[Print (Completed b)]"]) simp
      next
        case False
        obtain r3 w3 where cp: "copy2 b p (print Patching_failed w2) = (r3, w3)"
          by (cases "copy2 b p (print Patching_failed w2)") auto
        from copy2_trace [OF cp] obtain cs where
          cs: "trace w3 = trace (print Patching_failed w2) @ cs"
            "cs = [] \<or> cs = [Copy b p] \<or> cs = [Copy_broke b p]"
          by blast
        from assms cb ap Return False cp
        have "w' = w3 \<or> w' = print Restored w3"
          by (cases r3) (simp_all add: patch_phase_def then_do_def)
        then have "trace w' = trace w2 @ ([Print Patching_failed] @ cs)
            \<or> trace w' = trace w2 @ ([Print Patching_failed] @ cs @ [Print Restored])"
          using cs(1) by auto
        with cs(2) show ?thesis by auto
      qed
    next
      case (Raise e)
      with assms cb ap have "w' = w2" by (simp add: patch_phase_def then_do_def)
      then show ?thesis by simp
    next
      case (Exit c)
      with assms cb ap have "w' = w2" by (simp add: patch_phase_def then_do_def)
      then show ?thesis by simp
    qed
    then obtain tl where tl: "trace w' = trace w2 @ tl" "\<forall>q off v. Write q off v \<notin> set tl"
      by blast
    let ?rest = "[Print (Backup_created b), Print (Applying (length needed))] @ es2 @ tl"
    have "trace w' = trace w @ Copy p b # ?rest"
      using tl(1) es2(1) by (simp add: w1)
    moreover have "\<forall>q off v. Write q off v \<in> set ?rest \<longrightarrow> q = p"
      using own tl(2) by auto
    moreover have "\<not> path_exists (fs w) b" using b by (simp add: path_exists_def)
    ultimately show ?thesis using cb by auto
  qed
qed

lemma verify_patches_Return:
  assumes "fst (verify_patches p w) = Return (needed, applied)"
  shows "\<exists>f. map_of (fs w) p = Some f \<and> readable f \<and> 0x003FACF6 < length (content f)
    \<and> needed = filter (\<lambda>i. content f ! offset_of i = original_of i) [0, 1, 2, 3]
    \<and> applied = filter (\<lambda>i. content f ! offset_of i \<noteq> original_of i
                           \<and> content f ! offset_of i = replacement_of i) [0, 1, 2, 3]"
proof -
  from assms obtain f where f: "map_of (fs w) p = Some f" "readable f"
    by (auto simp: verify_patches_def open_rb_def split: option.splits if_splits)
  have long: "0x003FACF6 < length (content f)"
  proof (rule ccontr)
    assume "\<not> 0x003FACF6 < length (content f)"
    then have "length (content f) \<le> 0x003FACF6" by simp
    moreover have "(0x003FACF6, 0xE8, 0xB9) \<in> set PATCHES" by (simp add: PATCHES_def)
    ultimately have "fst (verify_patches p w) = Raise IndexError"
      using verify_patches_short [OF f] by simp
    with assms show False by simp
  qed
  from verify_patches_result [OF f long] assms
  have "needed = filter (\<lambda>i. classify_byte i (content f ! offset_of i) = NeedsApply) [0, 1, 2, 3]"
    and "applied = filter (\<lambda>i. classify_byte i (content f ! offset_of i) = AlreadyApplied) [0, 1, 2, 3]"
    by simp_all
  then have "needed = filter (\<lambda>i. content f ! offset_of i = original_of i) [0, 1, 2, 3]"
    and "applied = filter (\<lambda>i. content f ! offset_of i \<noteq> original_of i
                           \<and> content f ! offset_of i = replacement_of i) [0, 1, 2, 3]"
    by (simp_all add: classify_byte_def)
  with f long show ?thesis by simp
qed

lemma offsets_in_range:
  "i \<in> {0, 1, 2, 3} \<Longrightarrow> 0x003FACF6 < n \<Longrightarrow> offset_of i < n"
  by (auto simp: patch_simps)

lemma validate_file_transfer:
  "fs w' = fs w \<Longrightarrow> fst (validate_file p w') = fst (validate_file p w)"
  by (simp add: validate_file_def Let_def split: option.splits)

lemma split_after:
  assumes "A @ x # R = pre @ y # post" and "y \<notin> set A" and "y \<noteq> x"
  shows "x \<in> set pre \<and> y \<in> set R"
  using assms
proof (induction A arbitrary: pre)
  case Nil
  then show ?case by (cases pre) auto
next
  case (Cons a A)
  then show ?case by (cases pre) auto
qed

lemma fs_events_no_Write:
  "fs_events es = [] \<Longrightarrow> Write q off v \<notin> set es"
  by (auto simp: fs_events_def filter_empty_conv)

lemma fs_events_no_writes: "fs_events es = [] \<Longrightarrow> writes_of es = []"
  by (induction es rule: writes_of.induct) (simp_all add: fs_events_def split: if_splits)

lemma no_Write_writes: "\<forall>q off v. Write q off v \<notin> set es \<Longrightarrow> writes_of es = []"
  by (induction es rule: writes_of.induct) auto

lemma at_prompt_fields [simp]:
  "fs (at_prompt w) = meanwhile w (fs w)" "stdin (at_prompt w) = stdin w"
  "argv (at_prompt w) = argv w" "creatable (at_prompt w) = creatable w"
  "write_limit (at_prompt w) = write_limit w" "meanwhile (at_prompt w) = meanwhile w"
  "trace (at_prompt w) = trace w"
  by (simp_all add: at_prompt_def)

lemma apply_loop_transfer:
  "fs w' = fs w \<Longrightarrow>
     fst (apply_loop p idxs w') = fst (apply_loop p idxs w)
     \<and> fs (snd (apply_loop p idxs w')) = fs (snd (apply_loop p idxs w))"
proof (induction idxs arbitrary: w w')
  case Nil
  then show ?case by simp
next
  case (Cons i rest)
  have rd: "seek_read1 p off w' = seek_read1 p off w" for off
    using Cons.prems by (simp add: seek_read1_def)
  have wr: "fs (print m (seek_write1 p off b w')) = fs (print m (seek_write1 p off b w))"
    for m off b
    using Cons.prems by (simp add: seek_write1_def split: option.splits)
  show ?case
  proof (cases "py_index PATCHES i")
    case None
    with Cons.prems show ?thesis by simp
  next
    case (Some x)
    obtain off ob nb where x: "x = (off, ob, nb)" by (cases x) auto
    show ?thesis
    proof (cases "first_byte (seek_read1 p off w)")
      case (Inl e)
      with Cons.prems Some x rd show ?thesis by simp
    next
      case (Inr c)
      show ?thesis
      proof (cases "c = ob")
        case False
        with Cons.prems Some x Inr rd show ?thesis by simp
      next
        case True
        from Cons.IH [OF wr [of "Patch_changed (i + 1) off ob nb" off nb]]
        show ?thesis using Some x Inr True rd by simp
      qed
    qed
  qed
qed

lemma apply_patches_transfer:
  assumes "fs w' = fs w"
  shows "fst (apply_patches p idxs w') = fst (apply_patches p idxs w)"
    and "fs (snd (apply_patches p idxs w')) = fs (snd (apply_patches p idxs w))"
proof -
  have op: "open_rpb p w' = open_rpb p w" using assms by (simp add: open_rpb_def)
  show "fst (apply_patches p idxs w') = fst (apply_patches p idxs w)"
    using apply_loop_transfer [OF assms, of p idxs]
    by (cases "open_rpb p w") (simp_all add: apply_patches_def op)
  show "fs (snd (apply_patches p idxs w')) = fs (snd (apply_patches p idxs w))"
    using apply_loop_transfer [OF assms, of p idxs] assms
    by (cases "open_rpb p w") (simp_all add: apply_patches_def op)
qed

text \<open>
  What the run has done when it arrives at the backup: it printed, and it read one answer,
  during which wait the files became those of \<open>at_prompt\<close>.
\<close>

lemma main_reaches_backup:
  assumes "target_path w = Some p"
    and "fst (validate_file p w) = Return ()"
    and "fst (verify_patches p w) = Return (needed, applied)" and "needed \<noteq> []"
    and "stdin w = r # rest" and "lower r = ''y''"
  shows "\<exists>w6 es6. main w =
       (case patch_phase p needed w6 of
          (Return u, w') \<Rightarrow> (0, w')
        | (Raise e, w') \<Rightarrow> (1, print (Error_line e) w')
        | (Exit c, w') \<Rightarrow> (c, w'))
     \<and> fs w6 = fs (at_prompt w) \<and> creatable w6 = creatable w
     \<and> write_limit w6 = write_limit w \<and> argv w6 = argv w \<and> stdin w6 = rest
     \<and> trace w6 = trace w @ es6 \<and> fs_events es6 = []"
proof -
  let ?wt = "says [Banner, Rule, Target_file p] w"
  have va: "fst (validate_file p ?wt) = Return ()"
    using assms(2) validate_file_transfer [of ?wt w p] by simp
  have ve: "fst (verify_patches p ?wt) = Return (needed, applied)"
    using assms(3) verify_patches_transfer [of ?wt w p] by auto
  have st: "stdin ?wt = r # rest" using assms(5) by simp
  from main_try_reaches [OF va ve assms(4) st assms(6)] obtain w6 where
    w6: "main_try p ?wt = patch_phase p needed w6" "only_talked ?wt w6" "stdin w6 = rest"
      "fs w6 = meanwhile ?wt (fs ?wt)"
    by blast
  from w6(2) obtain es where es: "argv w6 = argv w" "creatable w6 = creatable w"
    "write_limit w6 = write_limit w" "trace w6 = trace ?wt @ es" "fs_events es = []"
    by (auto simp: only_talked_def)
  let ?es6 = "map Print [Banner, Rule, Target_file p] @ es"
  have "main w =
       (case patch_phase p needed w6 of
          (Return u, w') \<Rightarrow> (0, w')
        | (Raise e, w') \<Rightarrow> (1, print (Error_line e) w')
        | (Exit c, w') \<Rightarrow> (c, w'))"
    by (simp only: main_via_try [OF assms(1)] w6(1))
  moreover have "fs w6 = fs (at_prompt w)" using w6(4) by simp
  moreover have "trace w6 = trace w @ ?es6" using es(4) by simp
  moreover have "fs_events ?es6 = []" using es(5) by simp
  ultimately show ?thesis using es(1,2,3) w6(3) by blast
qed

lemma main_backup_fails:
  assumes "target_path w = Some p"
    and "fst (validate_file p w) = Return ()"
    and "fst (verify_patches p w) = Return (needed, applied)" and "needed \<noteq> []"
    and "stdin w = r # rest" and "lower r = ''y''"
    and "fst (create_backup p (at_prompt w)) = Raise e"
  shows "fst (main w) = 1
      \<and> map_of (fs (snd (main w))) p = map_of (fs (at_prompt w)) p
      \<and> (\<forall>q. path_exists (fs (at_prompt w)) q \<longrightarrow>
             map_of (fs (snd (main w))) q = map_of (fs (at_prompt w)) q)
      \<and> (\<exists>es. trace (snd (main w)) = trace w @ es @ [Print (Error_line e)]
            \<and> (\<forall>q off v. Write q off v \<notin> set es))"
proof -
  from main_reaches_backup [OF assms(1-6)] obtain w6 es6 where
    m: "main w =
       (case patch_phase p needed w6 of
          (Return u, w') \<Rightarrow> (0, w')
        | (Raise e, w') \<Rightarrow> (1, print (Error_line e) w')
        | (Exit c, w') \<Rightarrow> (c, w'))"
    and env: "fs w6 = fs (at_prompt w)" "creatable w6 = creatable (at_prompt w)"
      "write_limit w6 = write_limit (at_prompt w)"
    and tr: "trace w6 = trace w @ es6" "fs_events es6 = []"
    by auto
  obtain rb w1 where cb: "create_backup p w6 = (rb, w1)"
    by (cases "create_backup p w6") auto
  from create_backup_transfer(1) [OF env, of p] cb assms(7) have "rb = Raise e" by simp
  with cb have cb: "create_backup p w6 = (Raise e, w1)" by simp
  from create_backup_Raise [OF cb] obtain es1 where
    keep: "\<forall>q. path_exists (fs w6) q \<longrightarrow> map_of (fs w1) q = map_of (fs w6) q"
    and tgt: "map_of (fs w1) p = map_of (fs w6) p"
    and es1: "trace w1 = trace w6 @ es1" "es1 = [] \<or> (\<exists>b. es1 = [Copy_broke p b])"
    by blast
  have "patch_phase p needed w6 = (Raise e, w1)"
    by (simp add: patch_phase_def then_do_def cb)
  with m have m1: "main w = (1, print (Error_line e) w1)" by simp
  let ?es = "es6 @ es1"
  have "trace (snd (main w)) = trace w @ ?es @ [Print (Error_line e)]"
    using tr(1) es1(1) by (simp add: m1)
  moreover have "\<forall>q off v. Write q off v \<notin> set ?es"
    using fs_events_no_Write [OF tr(2)] es1(2) by auto
  moreover have "map_of (fs (snd (main w))) p = map_of (fs (at_prompt w)) p"
    using tgt env(1) by (simp add: m1)
  moreover have "\<forall>q. path_exists (fs (at_prompt w)) q \<longrightarrow>
             map_of (fs (snd (main w))) q = map_of (fs (at_prompt w)) q"
    using keep env(1) by (simp add: m1)
  moreover have "fst (main w) = 1" by (simp add: m1)
  ultimately show ?thesis by blast
qed

lemma main_events:
  "\<exists>es. trace (snd (main w)) = trace w @ es
     \<and> (\<forall>pre q off v post. es = pre @ Write q off v # post \<longrightarrow>
           target_path w = Some q
           \<and> (\<exists>b. Copy q b \<in> set pre \<and> \<not> path_exists (fs (at_prompt w)) b))"
proof (cases "target_path w")
  case None
  then have "main w = (1, says [Banner, Rule, Not_found_help] w)"
    by (simp add: main_def Let_def print_says)
  then have "trace (snd (main w)) = trace w @ map Print [Banner, Rule, Not_found_help]" by simp
  moreover have "\<forall>pre q off v post.
      map Print [Banner, Rule, Not_found_help] \<noteq> pre @ Write q off v # post"
    using fs_events_no_Write [of "map Print [Banner, Rule, Not_found_help]"]
    by (metis fs_events_simps(3) in_set_conv_decomp)
  ultimately show ?thesis by (intro exI [of _ "map Print [Banner, Rule, Not_found_help]"]) simp
next
  case (Some p)
  let ?wt = "says [Banner, Rule, Target_file p] w"
  obtain r w1 where mt: "main_try p ?wt = (r, w1)" by (cases "main_try p ?wt") auto
  have trace_main: "\<exists>tl. trace (snd (main w)) = trace w1 @ tl \<and> fs_events tl = []
      \<and> (r = Return () \<or> (\<exists>e. r = Raise e) \<or> (\<exists>c. r = Exit c))"
  proof (cases r)
    case (Return u)
    then have "snd (main w) = w1" by (simp add: main_via_try [OF Some] mt)
    with Return show ?thesis by simp
  next
    case (Raise e)
    then have "snd (main w) = print (Error_line e) w1" by (simp add: main_via_try [OF Some] mt)
    then have "trace (snd (main w)) = trace w1 @ [Print (Error_line e)]" by simp
    with Raise show ?thesis by (intro exI [of _ "[Print (Error_line e)]"]) simp
  next
    case (Exit c)
    then have "snd (main w) = w1" by (simp add: main_via_try [OF Some] mt)
    with Exit show ?thesis by simp
  qed
  then obtain tl where tl: "trace (snd (main w)) = trace w1 @ tl" "fs_events tl = []" by blast
  show ?thesis
  proof (cases "fst (validate_file p ?wt) = Return ()
      \<and> (\<exists>needed applied. fst (verify_patches p ?wt) = Return (needed, applied) \<and> needed \<noteq> [])
      \<and> (\<exists>r rest. stdin ?wt = r # rest \<and> lower r = ''y'')")
    case False
    from main_try_quiet [OF False] mt have "only_talked ?wt w1" by simp
    then obtain es1 where es1: "trace w1 = trace ?wt @ es1" "fs_events es1 = []"
      by (auto simp: only_talked_def)
    let ?es = "map Print [Banner, Rule, Target_file p] @ es1 @ tl"
    have t: "trace (snd (main w)) = trace w @ ?es" using tl(1) es1(1) by simp
    have "fs_events ?es = []" using tl(2) es1(2) by simp
    then have "\<forall>pre q off v post. ?es \<noteq> pre @ Write q off v # post"
      using fs_events_no_Write [of ?es] by (metis in_set_conv_decomp)
    with t show ?thesis by (intro exI [of _ ?es]) simp
  next
    case True
    then obtain needed applied a rest where
      va: "fst (validate_file p ?wt) = Return ()"
      and ve: "fst (verify_patches p ?wt) = Return (needed, applied)" "needed \<noteq> []"
      and st: "stdin ?wt = a # rest" "lower a = ''y''" by blast
    from main_try_reaches [OF va ve st] obtain w6 where
      w6: "main_try p ?wt = patch_phase p needed w6" "only_talked ?wt w6"
        "fs w6 = meanwhile ?wt (fs ?wt)" by blast
    from w6(2) obtain es6 where es6: "trace w6 = trace ?wt @ es6" "fs_events es6 = []"
      by (auto simp: only_talked_def)
    have fs6: "fs w6 = fs (at_prompt w)" using w6(3) by simp
    from mt w6(1) have pp: "patch_phase p needed w6 = (r, w1)" by simp
    from patch_phase_events [OF pp] obtain es' where
      es': "trace w1 = trace w6 @ es'"
        "(\<forall>q off v. Write q off v \<notin> set es')
         \<or> (\<exists>b rest. es' = Copy p b # rest \<and> \<not> path_exists (fs w6) b
             \<and> (\<forall>q off v. Write q off v \<in> set rest \<longrightarrow> q = p))"
      by blast
    let ?A = "map Print [Banner, Rule, Target_file p] @ es6"
    have A: "fs_events ?A = []" using es6(2) by simp
    let ?es = "?A @ es' @ tl"
    have t: "trace (snd (main w)) = trace w @ ?es" using tl(1) es'(1) es6(1) by simp
    have "\<forall>pre q off v post. ?es = pre @ Write q off v # post \<longrightarrow>
           target_path w = Some q
           \<and> (\<exists>b. Copy q b \<in> set pre \<and> \<not> path_exists (fs (at_prompt w)) b)"
    proof (intro allI impI)
      fix pre q off v post assume eq: "?es = pre @ Write q off v # post"
      have notA: "Write q off v \<notin> set ?A" using A by (rule fs_events_no_Write)
      have nottl: "Write q off v \<notin> set tl" using tl(2) by (rule fs_events_no_Write)
      from es'(2) show "target_path w = Some q
           \<and> (\<exists>b. Copy q b \<in> set pre \<and> \<not> path_exists (fs (at_prompt w)) b)"
      proof
        assume "\<forall>q off v. Write q off v \<notin> set es'"
        then have "Write q off v \<notin> set es'" by simp
        with notA nottl have "Write q off v \<notin> set ?es" by simp
        moreover have "Write q off v \<in> set ?es" by (simp only: eq) simp
        ultimately show ?thesis by simp
      next
        assume "\<exists>b rest. es' = Copy p b # rest \<and> \<not> path_exists (fs w6) b
             \<and> (\<forall>q off v. Write q off v \<in> set rest \<longrightarrow> q = p)"
        then obtain b rest where b: "es' = Copy p b # rest" "\<not> path_exists (fs w6) b"
          "\<forall>q off v. Write q off v \<in> set rest \<longrightarrow> q = p" by blast
        have "?A @ Copy p b # (rest @ tl) = pre @ Write q off v # post"
          using eq b(1) by simp
        with notA have in_pre: "Copy p b \<in> set pre"
          and in_rest: "Write q off v \<in> set (rest @ tl)"
          using split_after [of ?A "Copy p b" "rest @ tl" pre "Write q off v" post] by simp_all
        from in_rest nottl b(3) have "q = p" by auto
        with in_pre b(2) fs6 Some show ?thesis by auto
      qed
    qed
    with t show ?thesis by (intro exI [of _ ?es]) simp
  qed
qed

lemma original_file_bytes:
  "length (content original_file) = 4173047"
  "content original_file ! 0x003FACE8 = 0x85" "content original_file ! 0x003FACED = 0x50"
  "content original_file ! 0x003FACF0 = 0xFF" "content original_file ! 0x003FACF6 = 0xE8"
  "readable original_file" "writable original_file"
  by (simp_all add: original_file_def blank_simps)

lemma backup_loop_is_first_free:
  assumes "\<not> path_exists fsys (backup_name p k)" and "\<forall>j<k. path_exists fsys (backup_name p j)"
  shows "backup_loop fsys p (p @ ''.backup'') 1 = backup_name p k"
  using backup_loop_from [OF assms(2,1), of 0] by (simp add: backup_name_def)

text \<open>
  C5. In every run of main, each byte written to a file is written to the target, and
  before it in the trace stands the whole copy of the target to a backup path that did not
  exist when the script got the user's answer. And when the run gets as far as the backup
  (validation passed, some patch is needed, the user confirmed) and creating the backup
  raises, main exits with code 1 after the error line: the target and every file that
  existed are as they were when the script got the answer, and the run wrote no byte. (A
  copy that was stopped part-way may leave a new, incomplete backup file behind.)
\<close>

theorem no_patch_without_backup:
  "(\<exists>es. trace (snd (main w)) = trace w @ es
      \<and> (\<forall>pre q off v post. es = pre @ Write q off v # post \<longrightarrow>
            target_path w = Some q
            \<and> (\<exists>b. Copy q b \<in> set pre \<and> \<not> path_exists (fs (at_prompt w)) b)))
   \<and> (target_path w = Some p \<and> fst (validate_file p w) = Return ()
        \<and> fst (verify_patches p w) = Return (needed, applied) \<and> needed \<noteq> []
        \<and> stdin w = r # rest \<and> lower r = ''y''
        \<and> fst (create_backup p (at_prompt w)) = Raise e
      \<longrightarrow> fst (main w) = 1
          \<and> map_of (fs (snd (main w))) p = map_of (fs (at_prompt w)) p
          \<and> (\<forall>q. path_exists (fs (at_prompt w)) q \<longrightarrow>
                 map_of (fs (snd (main w))) q = map_of (fs (at_prompt w)) q)
          \<and> (\<exists>es. trace (snd (main w)) = trace w @ es @ [Print (Error_line e)]
                \<and> (\<forall>q off v. Write q off v \<notin> set es)))"
proof (intro conjI impI)
  show "\<exists>es. trace (snd (main w)) = trace w @ es
      \<and> (\<forall>pre q off v post. es = pre @ Write q off v # post \<longrightarrow>
            target_path w = Some q
            \<and> (\<exists>b. Copy q b \<in> set pre \<and> \<not> path_exists (fs (at_prompt w)) b))"
    by (rule main_events)
next
  assume h: "target_path w = Some p \<and> fst (validate_file p w) = Return ()
        \<and> fst (verify_patches p w) = Return (needed, applied) \<and> needed \<noteq> []
        \<and> stdin w = r # rest \<and> lower r = ''y''
        \<and> fst (create_backup p (at_prompt w)) = Raise e"
  then have tp: "target_path w = Some p" and va: "fst (validate_file p w) = Return ()"
    and ve: "fst (verify_patches p w) = Return (needed, applied)" and ne: "needed \<noteq> []"
    and st: "stdin w = r # rest" and yes: "lower r = ''y''"
    and cb: "fst (create_backup p (at_prompt w)) = Raise e"
    by simp_all
  note fails = main_backup_fails [OF tp va ve ne st yes cb]
  show "fst (main w) = 1" by (rule fails [THEN conjunct1])
  show "map_of (fs (snd (main w))) p = map_of (fs (at_prompt w)) p"
    by (rule fails [THEN conjunct2, THEN conjunct1])
  show "\<forall>q. path_exists (fs (at_prompt w)) q \<longrightarrow>
                 map_of (fs (snd (main w))) q = map_of (fs (at_prompt w)) q"
    by (rule fails [THEN conjunct2, THEN conjunct2, THEN conjunct1])
  show "\<exists>es. trace (snd (main w)) = trace w @ es @ [Print (Error_line e)]
                \<and> (\<forall>q off v. Write q off v \<notin> set es)"
    by (rule fails [THEN conjunct2, THEN conjunct2, THEN conjunct2])
qed

lemma original_world_facts:
  "target_path original_world = Some ''mnyob99.dll''"
  "map_of (fs original_world) ''mnyob99.dll'' = Some original_file"
  "stdin original_world = [''y'', ''Y'']"
  "backup_loop (fs original_world) ''mnyob99.dll'' (''mnyob99.dll'' @ ''.backup'') 1
     = ''mnyob99.dll.backup''"
  "creatable original_world = (\<lambda>_. True)"
  "fst (validate_file ''mnyob99.dll'' original_world) = Return ()"
  "fst (verify_patches ''mnyob99.dll'' original_world) = Return ([0, 1, 2, 3], [])"
  "write_limit original_world = (\<lambda>_. None)"
  "meanwhile original_world = (\<lambda>fsys. fsys)"
proof -
  show tp: "target_path original_world = Some ''mnyob99.dll''"
    by (simp add: target_path_def original_world_def)
  show fl: "map_of (fs original_world) ''mnyob99.dll'' = Some original_file"
    by (simp add: original_world_def)
  show "stdin original_world = [''y'', ''Y'']" by (simp add: original_world_def)
  show "backup_loop (fs original_world) ''mnyob99.dll'' (''mnyob99.dll'' @ ''.backup'') 1
     = ''mnyob99.dll.backup''"
    by (subst backup_loop.simps) (simp add: original_world_def path_exists_def)
  show "creatable original_world = (\<lambda>_. True)" by (simp add: original_world_def)
  show "fst (validate_file ''mnyob99.dll'' original_world) = Return ()"
    using validate_file_ok [OF fl] by (simp add: original_file_bytes)
  show "fst (verify_patches ''mnyob99.dll'' original_world) = Return ([0, 1, 2, 3], [])"
    using verify_patches_result [OF fl]
    by (simp add: original_file_bytes classify_byte_def patch_simps)
  show "write_limit original_world = (\<lambda>_. None)" by (simp add: original_world_def)
  show "meanwhile original_world = (\<lambda>fsys. fsys)" by (simp add: original_world_def)
qed

lemma lower_yes: "lower ''y'' = ''y''" "lower ''Y'' = ''y''"
  by code_simp+

text \<open>
  The facts of \<open>original_world\<close> that only depend on its files, command line and standard
  input hold in a world that differs from it in what the operating system will do.
\<close>

lemma same_start:
  assumes "fs w = fs original_world" and "argv w = argv original_world"
    and "stdin w = stdin original_world"
  shows "target_path w = Some ''mnyob99.dll''"
    "fst (validate_file ''mnyob99.dll'' w) = Return ()"
    "fst (verify_patches ''mnyob99.dll'' w) = Return ([0, 1, 2, 3], [])"
    "stdin w = ''y'' # [''Y'']"
proof -
  show "target_path w = Some ''mnyob99.dll''"
    using assms(2) by (simp add: target_path_def original_world_def)
  show "fst (validate_file ''mnyob99.dll'' w) = Return ()"
    using validate_file_transfer [OF assms(1)] original_world_facts(6) by simp
  show "fst (verify_patches ''mnyob99.dll'' w) = Return ([0, 1, 2, 3], [])"
    using verify_patches_transfer [OF assms(1), of "''mnyob99.dll''"] original_world_facts(7)
    by auto
  show "stdin w = ''y'' # [''Y'']"
    using assms(3) original_world_facts(3) by simp
qed

theorem no_patch_without_backup_witness:
  "fst (main full_disk_world) = 1
   \<and> map_of (fs (snd (main full_disk_world))) ''mnyob99.dll'' = Some original_file
   \<and> (\<forall>q off v. Write q off v \<notin> set (trace (snd (main full_disk_world))))"
proof -
  have quiet: "trace full_disk_world = []"
    by (simp add: full_disk_world_def original_world_def)
  have same: "fs full_disk_world = fs original_world" "argv full_disk_world = argv original_world"
    "stdin full_disk_world = stdin original_world"
    by (simp_all add: full_disk_world_def)
  note start = same_start [OF same]
  have ap: "fs (at_prompt full_disk_world) = fs original_world"
    by (simp add: full_disk_world_def original_world_facts(9))
  have lp: "backup_loop (fs original_world) ''mnyob99.dll'' ''mnyob99.dll.backup'' (Suc 0)
     = ''mnyob99.dll.backup''"
    using original_world_facts(4) by simp
  have nb: "map_of (fs original_world) ''mnyob99.dll.backup'' = None"
    by (simp add: original_world_def)
  have lim: "write_limit (at_prompt full_disk_world) = (\<lambda>_. Some 10)"
    and cr: "creatable (at_prompt full_disk_world) = (\<lambda>_. True)"
    by (simp_all add: full_disk_world_def original_world_facts(5))
  have cb: "fst (create_backup ''mnyob99.dll'' (at_prompt full_disk_world)) = Raise OSError"
    by (simp add: create_backup_def Let_def copy2_def write_copy_def then_do_def ap lp nb lim cr
        original_world_facts(2) original_file_bytes del: at_prompt_fields)
  from no_patch_without_backup [of full_disk_world "''mnyob99.dll''" "[0, 1, 2, 3]" "[]"
      "''y''" "[''Y'']" OSError] start cb lower_yes(1)
  have one: "fst (main full_disk_world) = 1"
    and tgt: "map_of (fs (snd (main full_disk_world))) ''mnyob99.dll''
          = map_of (fs (at_prompt full_disk_world)) ''mnyob99.dll''"
    and tr: "\<exists>es. trace (snd (main full_disk_world))
          = trace full_disk_world @ es @ [Print (Error_line OSError)]
        \<and> (\<forall>q off v. Write q off v \<notin> set es)"
    by simp_all
  from tr quiet have "\<forall>q off v. Write q off v \<notin> set (trace (snd (main full_disk_world)))"
    by auto
  moreover from tgt have
    "map_of (fs (snd (main full_disk_world))) ''mnyob99.dll'' = Some original_file"
    by (simp only: ap original_world_facts(2))
  ultimately show ?thesis using one by blast
qed

text \<open>
  C4. Take a run of main that gets as far as the backup (validation passed, some patch is
  needed, the user confirmed), makes the backup, and in which apply_patches then returns
  False. At the moment of the backup the target was some file; the backup holds that file
  at the end of the run, and the run ends with exit code 1 in either case of the restoring
  copy. When the copy of the backup over the target gets through, the target is again that
  file, content and permissions, and the run ends with the copy and the line that reports
  the restoration. When the operating system stops the copy part-way, the copy raises and
  the run ends with the error line.
\<close>

theorem failed_apply_exits_with_1:
  assumes "target_path w = Some p"
    and "fst (validate_file p w) = Return ()"
    and "fst (verify_patches p w) = Return (needed, applied)" and "needed \<noteq> []"
    and "stdin w = r # rest" and "lower r = ''y''"
    and "fst (create_backup p (at_prompt w)) = Return b"
    and "fst (apply_patches p needed (snd (create_backup p (at_prompt w)))) = Return False"
  shows "fst (main w) = 1
    \<and> (\<exists>f. map_of (fs (at_prompt w)) p = Some f
          \<and> map_of (fs (snd (main w))) b = Some f
          \<and> (fits (write_limit w p) (content f) \<longrightarrow>
                map_of (fs (snd (main w))) p = Some f
                \<and> (\<exists>es. trace (snd (main w))
                       = es @ [Print Patching_failed, Copy b p, Print Restored]))
          \<and> (\<not> fits (write_limit w p) (content f) \<longrightarrow>
                (\<exists>es. trace (snd (main w))
                       = es @ [Print Patching_failed, Copy_broke b p,
                               Print (Error_line OSError)])))"
proof -
  from main_reaches_backup [OF assms(1-6)] obtain w6 where
    m: "main w =
       (case patch_phase p needed w6 of
          (Return u, w') \<Rightarrow> (0, w')
        | (Raise e, w') \<Rightarrow> (1, print (Error_line e) w')
        | (Exit c, w') \<Rightarrow> (c, w'))"
    and env: "fs w6 = fs (at_prompt w)" "creatable w6 = creatable (at_prompt w)"
      "write_limit w6 = write_limit (at_prompt w)"
    by auto
  obtain rb w1 where cb: "create_backup p w6 = (rb, w1)"
    by (cases "create_backup p w6") auto
  from create_backup_transfer [OF env, of p] cb assms(7)
  have rb: "rb = Return b" and fs1: "fs w1 = fs (snd (create_backup p (at_prompt w)))"
    by simp_all
  from cb rb have cb: "create_backup p w6 = (Return b, w1)" by simp
  let ?wa = "print (Applying (length needed)) w1"
  have "fs ?wa = fs (snd (create_backup p (at_prompt w)))" using fs1 by simp
  from apply_patches_transfer(1) [OF this, of p needed] assms(8)
  have "fst (apply_patches p needed ?wa) = Return False" by simp
  then obtain w2 where ap: "apply_patches p needed ?wa = (Return False, w2)"
    by (cases "apply_patches p needed ?wa") auto
  from patch_phase_failure [OF cb ap] obtain f where
    f: "map_of (fs w6) p = Some f"
    and good: "fits (write_limit w6 p) (content f) \<longrightarrow>
           (\<exists>w'. patch_phase p needed w6 = (Exit 1, w')
              \<and> map_of (fs w') p = Some f \<and> map_of (fs w') b = Some f
              \<and> (\<forall>q. q \<noteq> p \<and> q \<noteq> b \<longrightarrow> map_of (fs w') q = map_of (fs w6) q)
              \<and> trace w' = trace w2 @ [Print Patching_failed, Copy b p, Print Restored])"
    and bad: "\<not> fits (write_limit w6 p) (content f) \<longrightarrow>
           (\<exists>w'. patch_phase p needed w6 = (Raise OSError, w')
              \<and> map_of (fs w') b = Some f
              \<and> (\<forall>q. q \<noteq> p \<and> q \<noteq> b \<longrightarrow> map_of (fs w') q = map_of (fs w6) q)
              \<and> trace w' = trace w2 @ [Print Patching_failed, Copy_broke b p])"
    by blast
  have lim: "write_limit w6 p = write_limit w p" using env(3) by simp
  have f0: "map_of (fs (at_prompt w)) p = Some f" using f env(1) by (simp only:)
  show ?thesis
  proof (cases "fits (write_limit w p) (content f)")
    case True
    with good lim obtain w' where
      pp: "patch_phase p needed w6 = (Exit 1, w')"
      and r: "map_of (fs w') p = Some f" "map_of (fs w') b = Some f"
        "trace w' = trace w2 @ [Print Patching_failed, Copy b p, Print Restored]"
      by auto
    have m1: "main w = (1, w')" by (simp add: m pp)
    have "fst (main w) = 1" by (simp add: m1)
    moreover have "map_of (fs (snd (main w))) b = Some f"
      "map_of (fs (snd (main w))) p = Some f"
      using r(1,2) by (simp_all add: m1)
    moreover have "\<exists>es. trace (snd (main w))
        = es @ [Print Patching_failed, Copy b p, Print Restored]"
      using r(3) by (simp add: m1)
    ultimately show ?thesis using f0 True by blast
  next
    case False
    with bad lim obtain w' where
      pp: "patch_phase p needed w6 = (Raise OSError, w')"
      and r: "map_of (fs w') b = Some f"
        "trace w' = trace w2 @ [Print Patching_failed, Copy_broke b p]"
      by auto
    have m1: "main w = (1, print (Error_line OSError) w')" by (simp add: m pp)
    have "fst (main w) = 1" by (simp add: m1)
    moreover have "map_of (fs (snd (main w))) b = Some f"
      using r(1) by (simp add: m1)
    moreover have "trace (snd (main w))
        = trace w2 @ [Print Patching_failed, Copy_broke b p, Print (Error_line OSError)]"
      using r(2) by (simp add: m1)
    then have "\<exists>es. trace (snd (main w))
        = es @ [Print Patching_failed, Copy_broke b p, Print (Error_line OSError)]"
      by blast
    ultimately show ?thesis using f0 False by blast
  qed
qed

theorem failed_apply_exits_with_1_witness:
  "fst (main raced_world) = 1
   \<and> map_of (fs (snd (main raced_world))) ''mnyob99.dll'' = Some stale_file
   \<and> map_of (fs (snd (main raced_world))) ''mnyob99.dll.backup'' = Some stale_file"
proof -
  let ?p = "''mnyob99.dll''"
  have same: "fs raced_world = fs original_world" "argv raced_world = argv original_world"
    "stdin raced_world = stdin original_world"
    by (simp_all add: raced_world_def)
  note start = same_start [OF same]
  have ap: "fs (at_prompt raced_world) = [(?p, stale_file)]"
    by (simp add: raced_world_def original_world_def)
  have lim: "write_limit (at_prompt raced_world) = (\<lambda>_. None)"
    and cr: "creatable (at_prompt raced_world) = (\<lambda>_. True)"
    by (simp_all add: raced_world_def original_world_facts(5,8))
  have lp: "backup_loop [(?p, stale_file)] ?p ''mnyob99.dll.backup'' (Suc 0)
     = ''mnyob99.dll.backup''"
    by (subst backup_loop.simps) (simp add: path_exists_def)
  have cb: "create_backup ?p (at_prompt raced_world) =
      (Return ''mnyob99.dll.backup'',
       print (Backup_created ''mnyob99.dll.backup'')
         ((at_prompt raced_world)
            \<lparr>fs := AList.update ''mnyob99.dll.backup'' stale_file [(?p, stale_file)],
             trace := trace (at_prompt raced_world) @ [Copy ?p ''mnyob99.dll.backup'']\<rparr>))"
    by (simp add: create_backup_def Let_def copy2_def write_copy_def then_do_def ap lp lim cr
        stale_file_bytes del: at_prompt_fields)
  have tgt: "map_of (fs (snd (create_backup ?p (at_prompt raced_world)))) ?p = Some stale_file"
    by (simp add: cb del: at_prompt_fields)
  have fails: "fst (apply_patches ?p [0, 1, 2, 3] (snd (create_backup ?p (at_prompt raced_world))))
      = Return False"
    by (rule stale_apply_fails [OF tgt])
  have b: "fst (create_backup ?p (at_prompt raced_world)) = Return ''mnyob99.dll.backup''"
    by (simp add: cb del: at_prompt_fields)
  have ne: "[0, 1, 2, 3 :: int] \<noteq> []" by simp
  have wl: "fits (write_limit raced_world ?p) bs" for bs
    by (simp add: raced_world_def original_world_facts(8) fits_def)
  from failed_apply_exits_with_1 [OF start(1,2,3) ne start(4) lower_yes(1) b fails]
  show ?thesis by (auto simp: ap wl simp del: at_prompt_fields)
qed

lemma needed_facts:
  assumes "needed = filter (\<lambda>i. content f ! offset_of i = original_of i) [0, 1, 2, 3]"
    and "0x003FACF6 < length (content f)"
  shows "distinct needed" "set needed \<subseteq> {0, 1, 2, 3}"
    "\<forall>i \<in> set needed. offset_of i < length (content f)
        \<and> content f ! offset_of i = original_of i"
proof -
  show "distinct needed" by (simp add: assms(1))
  show sub: "set needed \<subseteq> {0, 1, 2, 3}" by (auto simp: assms(1))
  show "\<forall>i \<in> set needed. offset_of i < length (content f)
        \<and> content f ! offset_of i = original_of i"
  proof
    fix i assume i: "i \<in> set needed"
    with sub have "i \<in> {0, 1, 2, 3}" by auto
    then have "offset_of i < length (content f)" using assms(2) by (rule offsets_in_range)
    moreover from i have "i \<in> set (filter (\<lambda>i. content f ! offset_of i = original_of i) [0, 1, 2, 3])"
      by (simp only: assms(1))
    then have "content f ! offset_of i = original_of i"
      by (simp only: set_filter mem_Collect_eq)
    ultimately show "offset_of i < length (content f)
        \<and> content f ! offset_of i = original_of i" by simp
  qed
qed

text \<open>
  A run that reaches the backup while nothing else touches the files, on a system that
  lets the backup be created and written in full, ends with exit code 0 after one copy
  and one write for each needed index.
\<close>

lemma main_success:
  assumes tp: "target_path w = Some p"
    and va: "fst (validate_file p w) = Return ()"
    and ve: "fst (verify_patches p w) = Return (needed, applied)" "needed \<noteq> []"
    and st: "stdin w = r # rest" "lower r = ''y''"
    and und: "meanwhile w (fs w) = fs w"
    and f: "map_of (fs w) p = Some f"
    and cr: "creatable w (backup_loop (fs w) p (p @ ''.backup'') 1)"
    and ft: "fits (write_limit w (backup_loop (fs w) p (p @ ''.backup'') 1)) (content f)"
  shows "\<exists>w' es. \<not> path_exists (fs w) (backup_loop (fs w) p (p @ ''.backup'') 1)
     \<and> main w = (0, w')
     \<and> map_of (fs w') = (map_of (fs w))
          (backup_loop (fs w) p (p @ ''.backup'') 1 \<mapsto> f,
           p \<mapsto> f\<lparr>content := patched needed (content f)\<rparr>)
     \<and> stdin w' = rest \<and> argv w' = argv w
     \<and> trace w' = trace w @ es
     \<and> fs_events es = Copy p (backup_loop (fs w) p (p @ ''.backup'') 1)
          # map (\<lambda>i. Write p (offset_of i) (replacement_of i)) needed"
proof -
  let ?b = "backup_loop (fs w) p (p @ ''.backup'') 1"
  from main_reaches_backup [OF tp va ve st] obtain w6 es6 where
    m: "main w =
       (case patch_phase p needed w6 of
          (Return u, w') \<Rightarrow> (0, w')
        | (Raise e, w') \<Rightarrow> (1, print (Error_line e) w')
        | (Exit c, w') \<Rightarrow> (c, w'))"
    and fs6: "fs w6 = fs (at_prompt w)"
    and env: "creatable w6 = creatable w" "write_limit w6 = write_limit w"
      "argv w6 = argv w" "stdin w6 = rest"
    and tr6: "trace w6 = trace w @ es6" "fs_events es6 = []"
    by blast
  from fs6 und have fs6: "fs w6 = fs w" by simp
  from validate_file_Return [OF va] f have rw: "readable f" "writable f" by auto
  from verify_patches_Return [OF ve(1)] f have
    long: "0x003FACF6 < length (content f)"
    and nd: "needed = filter (\<lambda>i. content f ! offset_of i = original_of i) [0, 1, 2, 3]"
    by auto
  note idx = needed_facts [OF nd long]
  from free_backup_name_exists [of "fs w" p] obtain k
    where free: "\<not> path_exists (fs w) (backup_name p k)"
      and taken: "\<forall>j<k. path_exists (fs w) (backup_name p j)"
    by blast
  have b: "?b = backup_name p k" by (rule backup_loop_is_first_free [OF free taken])
  have f6: "map_of (fs w6) p = Some f" using f fs6 by simp
  have free6: "\<not> path_exists (fs w6) (backup_name p k)" using free fs6 by simp
  have taken6: "\<forall>j<k. path_exists (fs w6) (backup_name p j)" using taken fs6 by simp
  have cr6: "creatable w6 (backup_name p k)" using cr b env(1) by simp
  have ft6: "fits (write_limit w6 (backup_name p k)) (content f)" using ft b env(2) by simp
  from patch_phase_success [OF f6 rw idx free6 taken6 cr6 ft6] obtain w' es where
    pp: "patch_phase p needed w6 = (Return (), w')"
    and fs': "map_of (fs w') = (map_of (fs w6))
          (backup_name p k \<mapsto> f, p \<mapsto> f\<lparr>content := patched needed (content f)\<rparr>)"
    and st6: "stdin w' = stdin w6" "argv w' = argv w6"
    and tr: "trace w' = trace w6 @ es @ [Print (Completed (backup_name p k))]"
    and fe: "fs_events es = Copy p (backup_name p k)
          # map (\<lambda>i. Write p (offset_of i) (replacement_of i)) needed"
    by blast
  have m1: "main w = (0, w')" by (simp add: m pp)
  let ?es = "es6 @ es @ [Print (Completed (backup_name p k))]"
  have "trace w' = trace w @ ?es" using tr tr6(1) by simp
  moreover have "fs_events ?es = Copy p ?b # map (\<lambda>i. Write p (offset_of i) (replacement_of i)) needed"
    using fe tr6(2) b by simp
  moreover have "map_of (fs w') = (map_of (fs w))
          (?b \<mapsto> f, p \<mapsto> f\<lparr>content := patched needed (content f)\<rparr>)"
    using fs' fs6 b by simp
  moreover have "stdin w' = rest" "argv w' = argv w" using st6 env(3,4) by simp_all
  moreover have "\<not> path_exists (fs w) ?b" using free b by simp
  ultimately show ?thesis using m1 by blast
qed

text \<open>
  C1. For a target file that reaches past the last patch offset (so it has more than
  1,000,000 bytes), is readable and writable, and holds the original bytes 0x85, 0x50,
  0xFF, 0xE8 at the four offsets: when the answers waiting on standard input are
  affirmative, no other program changes the files while the script waits, and the
  operating system lets the backup file be created and written in full, main exits with
  code 0. It copies the target to the first free backup name, then writes 0x8D, 0x51,
  0x85, 0xB9 at the four offsets in the order of the indices 0, 1, 2, 3, and does nothing
  else to any file. At the end the backup holds the original file, the target differs
  from it at exactly the four offsets, and the second answer is still unread: the run asks
  one question.
\<close>

theorem full_run_patches_four_bytes:
  assumes "target_path w = Some p"
    and "map_of (fs w) p = Some f" and "readable f" and "writable f"
    and "1000000 \<le> length (content f)" and "0x003FACF6 < length (content f)"
    and "content f ! 0x003FACE8 = 0x85" and "content f ! 0x003FACED = 0x50"
    and "content f ! 0x003FACF0 = 0xFF" and "content f ! 0x003FACF6 = 0xE8"
    and "stdin w = r1 # r2 # rest" and "lower r1 = ''y''" and "lower r2 = ''y''"
    and "meanwhile w (fs w) = fs w"
    and "creatable w (backup_loop (fs w) p (p @ ''.backup'') 1)"
    and "fits (write_limit w (backup_loop (fs w) p (p @ ''.backup'') 1)) (content f)"
  shows "\<exists>b w' es c'. b = backup_loop (fs w) p (p @ ''.backup'') 1
     \<and> \<not> path_exists (fs w) b
     \<and> main w = (0, w')
     \<and> map_of (fs w') b = Some f
     \<and> map_of (fs w') p = Some (f\<lparr>content := c'\<rparr>)
     \<and> c' = (content f)[0x003FACE8 := 0x8D, 0x003FACED := 0x51,
                         0x003FACF0 := 0x85, 0x003FACF6 := 0xB9]
     \<and> c' ! 0x003FACE8 = 0x8D \<and> c' ! 0x003FACED = 0x51
     \<and> c' ! 0x003FACF0 = 0x85 \<and> c' ! 0x003FACF6 = 0xB9
     \<and> (\<forall>q. q \<noteq> p \<and> q \<noteq> b \<longrightarrow> map_of (fs w') q = map_of (fs w) q)
     \<and> trace w' = trace w @ es
     \<and> fs_events es = [Copy p b, Write p 0x003FACE8 0x8D, Write p 0x003FACED 0x51,
                        Write p 0x003FACF0 0x85, Write p 0x003FACF6 0xB9]
     \<and> stdin w' = r2 # rest"
proof -
  let ?b = "backup_loop (fs w) p (p @ ''.backup'') 1"
  let ?c' = "(content f)[0x003FACE8 := 0x8D, 0x003FACED := 0x51,
                         0x003FACF0 := 0x85, 0x003FACF6 := 0xB9]"
  have va: "fst (validate_file p w) = Return ()"
    using validate_file_ok [OF assms(2,3,4)] by simp
  have ve: "fst (verify_patches p w) = Return ([0, 1, 2, 3], [])"
    using verify_patches_result [OF assms(2,3,6)] assms(7-10)
    by (simp add: classify_byte_def patch_simps)
  have ne: "[0, 1, 2, 3 :: int] \<noteq> []" by simp
  from main_success [OF assms(1) va ve ne assms(11,12,14) assms(2) assms(15,16)]
  obtain w' es where
    nb: "\<not> path_exists (fs w) ?b"
    and m: "main w = (0, w')"
    and fs': "map_of (fs w') = (map_of (fs w))
          (?b \<mapsto> f, p \<mapsto> f\<lparr>content := patched [0, 1, 2, 3] (content f)\<rparr>)"
    and st: "stdin w' = r2 # rest"
    and tr: "trace w' = trace w @ es"
    and fe: "fs_events es = Copy p ?b
          # map (\<lambda>i. Write p (offset_of i) (replacement_of i)) [0, 1, 2, 3]"
    by auto
  have pc: "patched [0, 1, 2, 3] (content f) = ?c'"
    by (simp add: patched_simps patch_simps)
  from nb assms(2) have bp: "?b \<noteq> p" by (auto simp: path_exists_def)
  have "map_of (fs w') ?b = Some f" using fs' bp by simp
  moreover have "map_of (fs w') p = Some (f\<lparr>content := ?c'\<rparr>)" using fs' pc by simp
  moreover have "?c' ! 0x003FACE8 = 0x8D \<and> ?c' ! 0x003FACED = 0x51
     \<and> ?c' ! 0x003FACF0 = 0x85 \<and> ?c' ! 0x003FACF6 = 0xB9"
    using assms(6) by simp
  moreover have "\<forall>q. q \<noteq> p \<and> q \<noteq> ?b \<longrightarrow> map_of (fs w') q = map_of (fs w) q"
    using fs' by simp
  moreover have "fs_events es = [Copy p ?b, Write p 0x003FACE8 0x8D, Write p 0x003FACED 0x51,
                        Write p 0x003FACF0 0x85, Write p 0x003FACF6 0xB9]"
    using fe by (simp add: patch_simps)
  ultimately show ?thesis using nb m tr st by (intro exI [of _ ?b] exI [of _ w'] exI [of _ es] exI [of _ ?c']) simp
qed

lemma original_world_quiet:
  "meanwhile original_world (fs original_world) = fs original_world"
  "creatable original_world x" "fits (write_limit original_world x) bs"
  by (simp_all add: original_world_facts(5,8,9) fits_def)

theorem full_run_patches_four_bytes_witness:
  "fst (main original_world) = 0
   \<and> map_of (fs (snd (main original_world))) ''mnyob99.dll.backup'' = Some original_file
   \<and> (\<exists>f'. map_of (fs (snd (main original_world))) ''mnyob99.dll'' = Some f'
         \<and> content f' ! 0x003FACE8 = 0x8D \<and> content f' ! 0x003FACED = 0x51
         \<and> content f' ! 0x003FACF0 = 0x85 \<and> content f' ! 0x003FACF6 = 0xB9)
   \<and> stdin (snd (main original_world)) = [''Y'']"
proof -
  have lp: "backup_loop (fs original_world) ''mnyob99.dll'' ''mnyob99.dll.backup'' (Suc 0)
      = ''mnyob99.dll.backup''"
    using original_world_facts(4) by simp
  have big: "1000000 \<le> length (content original_file)"
    "0x003FACF6 < length (content original_file)"
    by (simp_all add: original_file_bytes)
  from full_run_patches_four_bytes [OF original_world_facts(1,2) original_file_bytes(6,7) big
      original_file_bytes(2-5) original_world_facts(3) lower_yes original_world_quiet]
  obtain w' c' where "main original_world = (0, w')"
    "map_of (fs w') ''mnyob99.dll.backup'' = Some original_file"
    "map_of (fs w') ''mnyob99.dll'' = Some (original_file\<lparr>content := c'\<rparr>)"
    "c' ! 0x003FACE8 = 0x8D" "c' ! 0x003FACED = 0x51"
    "c' ! 0x003FACF0 = 0x85" "c' ! 0x003FACF6 = 0xB9"
    "stdin w' = [''Y'']"
    by (auto simp: lp)
  then show ?thesis by simp
qed

lemma writes_of_fs_events: "writes_of (fs_events es) = writes_of es"
  by (induction es rule: writes_of.induct) (simp_all add: fs_events_def)

lemma main_trace_tail:
  assumes "target_path w = Some p"
  shows "\<exists>tl. trace (snd (main w))
        = trace (snd (main_try p (says [Banner, Rule, Target_file p] w))) @ tl
      \<and> fs_events tl = []"
proof -
  let ?wt = "says [Banner, Rule, Target_file p] w"
  obtain r w1 where mt: "main_try p ?wt = (r, w1)" by (cases "main_try p ?wt") auto
  show ?thesis
  proof (cases r)
    case (Return u)
    then have "snd (main w) = w1" by (simp add: main_via_try [OF assms] mt)
    then show ?thesis by (simp add: mt)
  next
    case (Raise e)
    then have "snd (main w) = print (Error_line e) w1" by (simp add: main_via_try [OF assms] mt)
    then have "trace (snd (main w)) = trace w1 @ [Print (Error_line e)]" by simp
    then show ?thesis by (intro exI [of _ "[Print (Error_line e)]"]) (simp add: mt)
  next
    case (Exit c)
    then have "snd (main w) = w1" by (simp add: main_via_try [OF assms] mt)
    then show ?thesis by (simp add: mt)
  qed
qed

text \<open>
  A run that wrote a byte while nothing else touched the files got as far as the backup,
  and the backup was made.
\<close>

lemma main_wrote:
  assumes tp: "target_path w = Some p"
    and wrote: "writes_of (trace (snd (main w))) \<noteq> writes_of (trace w)"
    and und: "meanwhile w (fs w) = fs w"
  shows "fst (validate_file p w) = Return ()
    \<and> (\<exists>needed applied. fst (verify_patches p w) = Return (needed, applied) \<and> needed \<noteq> [])
    \<and> (\<exists>r rest. stdin w = r # rest \<and> lower r = ''y'')
    \<and> (\<exists>f. map_of (fs w) p = Some f
          \<and> creatable w (backup_loop (fs w) p (p @ ''.backup'') 1)
          \<and> fits (write_limit w (backup_loop (fs w) p (p @ ''.backup'') 1)) (content f))"
proof -
  let ?wt = "says [Banner, Rule, Target_file p] w"
  have reach: "fst (validate_file p ?wt) = Return ()
      \<and> (\<exists>needed applied. fst (verify_patches p ?wt) = Return (needed, applied) \<and> needed \<noteq> [])
      \<and> (\<exists>r rest. stdin ?wt = r # rest \<and> lower r = ''y'')"
  proof (rule ccontr)
    assume n: "\<not> ?thesis"
    from main_try_quiet [OF n] have "only_talked ?wt (snd (main_try p ?wt))" by simp
    then obtain es1 where es1: "trace (snd (main_try p ?wt)) = trace ?wt @ es1" "fs_events es1 = []"
      by (auto simp: only_talked_def)
    from main_trace_tail [OF tp] obtain tl where
      tl: "trace (snd (main w)) = trace (snd (main_try p ?wt)) @ tl" "fs_events tl = []" by blast
    have "writes_of (trace (snd (main w))) = writes_of (trace w)"
      using tl es1 by (simp add: writes_of_append fs_events_no_writes)
    with wrote show False by simp
  qed
  have va: "fst (validate_file p w) = Return ()"
    using reach validate_file_transfer [of ?wt w p] by simp
  from reach obtain needed applied where "fst (verify_patches p ?wt) = Return (needed, applied)"
    and ne: "needed \<noteq> []" by blast
  then have ve: "fst (verify_patches p w) = Return (needed, applied)"
    using verify_patches_transfer [of ?wt w p] by auto
  from reach obtain r rest where st: "stdin w = r # rest" "lower r = ''y''" by auto
  from validate_file_Return [OF va] obtain f where f: "map_of (fs w) p = Some f" by blast
  have ap: "at_prompt w = w" by (simp add: at_prompt_def und)
  have ok: "creatable w (backup_loop (fs w) p (p @ ''.backup'') 1)
      \<and> fits (write_limit w (backup_loop (fs w) p (p @ ''.backup'') 1)) (content f)"
  proof (rule ccontr)
    assume nc: "\<not> ?thesis"
    from free_backup_name_exists [of "fs w" p] obtain k
      where free: "\<not> path_exists (fs w) (backup_name p k)"
        and taken: "\<forall>j<k. path_exists (fs w) (backup_name p j)"
      by blast
    have b: "backup_loop (fs w) p (p @ ''.backup'') 1 = backup_name p k"
      by (rule backup_loop_is_first_free [OF free taken])
    note nc' = nc [unfolded b]
    from create_backup_cases [OF free taken] nc' f obtain e w1 where
      "create_backup p w = (Raise e, w1)" by auto
    then have "fst (create_backup p (at_prompt w)) = Raise e" by (simp add: ap)
    from main_backup_fails [OF tp va ve ne st this] obtain es where
      "trace (snd (main w)) = trace w @ es @ [Print (Error_line e)]"
      "\<forall>q off v. Write q off v \<notin> set es" by blast
    then have "writes_of (trace (snd (main w))) = writes_of (trace w)"
      by (simp add: writes_of_append no_Write_writes)
    with wrote show False by simp
  qed
  from va ve ne st f ok show ?thesis by blast
qed

lemma replacement_differs: "i \<in> {0, 1, 2, 3} \<Longrightarrow> replacement_of i \<noteq> original_of i"
  by (auto simp: patch_simps)

text \<open>
  What a second look finds after the needed patches were written: no index needs a patch
  any more, and every index that was needed or already applied is found applied.
\<close>

lemma verify_after_patching:
  assumes f: "map_of (fs w) p = Some (f\<lparr>content := patched needed (content f)\<rparr>)" "readable f"
    and long: "0x003FACF6 < length (content f)"
    and nd: "needed = filter (\<lambda>i. content f ! offset_of i = original_of i) [0, 1, 2, 3]"
    and ad: "applied = filter (\<lambda>i. content f ! offset_of i \<noteq> original_of i
                           \<and> content f ! offset_of i = replacement_of i) [0, 1, 2, 3]"
  shows "\<exists>applied2. fst (verify_patches p w) = Return ([], applied2)
      \<and> set needed \<subseteq> set applied2 \<and> set applied \<subseteq> set applied2"
proof -
  let ?c = "content f"
  let ?c2 = "patched needed ?c"
  let ?f2 = "f\<lparr>content := ?c2\<rparr>"
  note idx = needed_facts [OF nd long]
  have valid: "\<forall>j \<in> set needed. py_index PATCHES j \<noteq> None \<and> offset_of j < length ?c"
  proof
    fix j assume j: "j \<in> set needed"
    with idx(2) have "j \<in> {0, 1, 2, 3}" by auto
    then have "py_index PATCHES j \<noteq> None" by (simp add: index_in_table)
    with idx(3) j show "py_index PATCHES j \<noteq> None \<and> offset_of j < length ?c" by simp
  qed
  have inn: "?c2 ! offset_of i = replacement_of i" if "i \<in> set needed" for i
    using patched_written [OF valid that] .
  have out: "?c2 ! offset_of i = ?c ! offset_of i" if "i \<in> {0, 1, 2, 3}" "i \<notin> set needed" for i
  proof (rule patched_frame)
    show "offset_of i \<notin> offset_of ` set needed"
    proof
      assume "offset_of i \<in> offset_of ` set needed"
      then obtain j where j: "j \<in> set needed" "offset_of i = offset_of j" by auto
      with idx(2) have "j \<in> {0, 1, 2, 3}" by auto
      moreover from j(1) that(2) have "i \<noteq> j" by auto
      ultimately have "offset_of i \<noteq> offset_of j" using that(1) by (intro offsets_differ)
      with j(2) show False by simp
    qed
  qed
  have mem: "i \<in> set needed \<longleftrightarrow> ?c ! offset_of i = original_of i" if "i \<in> {0, 1, 2, 3}" for i
    using that unfolding nd set_filter by simp
  have none: "?c2 ! offset_of i \<noteq> original_of i" if "i \<in> {0, 1, 2, 3}" for i
  proof (cases "i \<in> set needed")
    case True
    with inn replacement_differs [OF that] show ?thesis by simp
  next
    case False
    with out [OF that] mem [OF that] show ?thesis by simp
  qed
  have f2: "readable ?f2" "0x003FACF6 < length (content ?f2)"
    using f(2) long by (simp_all add: length_patched)
  let ?n2 = "filter (\<lambda>i. classify_byte i (content ?f2 ! offset_of i) = NeedsApply) [0, 1, 2, 3]"
  let ?a2 = "filter (\<lambda>i. classify_byte i (content ?f2 ! offset_of i) = AlreadyApplied) [0, 1, 2, 3]"
  from verify_patches_result [OF f(1) f2]
  have res: "fst (verify_patches p w) = Return (?n2, ?a2)" by simp
  have univ: "set [0, 1, 2, 3 :: int] = {0, 1, 2, 3}" by simp
  have "\<forall>i \<in> set [0, 1, 2, 3 :: int]. \<not> classify_byte i (content ?f2 ! offset_of i) = NeedsApply"
  proof
    fix i :: int assume "i \<in> set [0, 1, 2, 3]"
    then have "i \<in> {0, 1, 2, 3}" by (simp only: univ)
    from none [OF this] show "\<not> classify_byte i (content ?f2 ! offset_of i) = NeedsApply"
      by (simp add: classify_byte_def)
  qed
  then have n2: "?n2 = []" by (simp only: filter_empty_conv)
  have sub1: "set needed \<subseteq> set ?a2"
  proof
    fix i assume i: "i \<in> set needed"
    with idx(2) have i4: "i \<in> {0, 1, 2, 3}" by auto
    from inn [OF i] none [OF i4]
    have "classify_byte i (content ?f2 ! offset_of i) = AlreadyApplied"
      by (simp add: classify_byte_def)
    with i4 show "i \<in> set ?a2" unfolding set_filter univ by simp
  qed
  have sub2: "set applied \<subseteq> set ?a2"
  proof
    fix i assume "i \<in> set applied"
    then have "i \<in> set (filter (\<lambda>i. ?c ! offset_of i \<noteq> original_of i
                           \<and> ?c ! offset_of i = replacement_of i) [0, 1, 2, 3])"
      by (simp only: ad)
    then have both: "i \<in> {0, 1, 2, 3} \<and> (?c ! offset_of i \<noteq> original_of i
        \<and> ?c ! offset_of i = replacement_of i)"
      unfolding set_filter univ by (rule CollectD)
    note i4 = both [THEN conjunct1]
      and a = both [THEN conjunct2, THEN conjunct1] both [THEN conjunct2, THEN conjunct2]
    from a(1) mem [OF i4] have "i \<notin> set needed" by simp
    from out [OF i4 this] a none [OF i4]
    have "classify_byte i (content ?f2 ! offset_of i) = AlreadyApplied"
      by (simp add: classify_byte_def)
    with i4 show "i \<in> set ?a2" unfolding set_filter univ by simp
  qed
  from res n2 sub1 sub2 show ?thesis by (intro exI [of _ ?a2]) simp
qed

text \<open>
  C8. After a run of main that wrote patch bytes while no other program changed the
  files, the run has ended with exit code 0, and a second run on the same target,
  whatever is then on standard input, finds no index that needs a patch and finds applied
  every index the first run found needed or applied. It reports that all patches are
  applied and exits with code 0 without asking, copying or writing: the file system stays
  as the first run left it.
\<close>

theorem second_run_changes_nothing:
  assumes "target_path w = Some p"
    and "meanwhile w (fs w) = fs w"
    and "main w = (c, w')"
    and "writes_of (trace w') \<noteq> writes_of (trace w)"
    and "fs w2 = fs w'" and "target_path w2 = Some p"
  shows "c = 0
    \<and> (\<exists>needed applied applied2.
          fst (verify_patches p w) = Return (needed, applied) \<and> needed \<noteq> []
          \<and> fst (verify_patches p w2) = Return ([], applied2)
          \<and> set needed \<subseteq> set applied2 \<and> set applied \<subseteq> set applied2)
    \<and> fst (main w2) = 0
    \<and> fs (snd (main w2)) = fs w2
    \<and> stdin (snd (main w2)) = stdin w2
    \<and> (\<exists>es. trace (snd (main w2)) = trace w2 @ es @ [Print All_applied] \<and> fs_events es = [])"
proof -
  from assms(3,4) have wrote: "writes_of (trace (snd (main w))) \<noteq> writes_of (trace w)" by simp
  let ?b = "backup_loop (fs w) p (p @ ''.backup'') 1"
  from main_wrote [OF assms(1) wrote assms(2)] obtain needed applied r rest f where
    va: "fst (validate_file p w) = Return ()"
    and ve: "fst (verify_patches p w) = Return (needed, applied)" and ne: "needed \<noteq> []"
    and st: "stdin w = r # rest" "lower r = ''y''"
    and f: "map_of (fs w) p = Some f"
    and cr: "creatable w ?b" and ft: "fits (write_limit w ?b) (content f)"
    by blast
  from main_success [OF assms(1) va ve ne st assms(2) f cr ft] obtain w'' where
    nb: "\<not> path_exists (fs w) ?b"
    and m: "main w = (0, w'')"
    and fs'': "map_of (fs w'') = (map_of (fs w))
          (?b \<mapsto> f, p \<mapsto> f\<lparr>content := patched needed (content f)\<rparr>)"
    by blast
  from m assms(3) have c: "c = 0" and w': "w' = w''" by simp_all
  from validate_file_Return [OF va] f have rw: "readable f" "writable f" by auto
  from verify_patches_Return [OF ve] f have
    long: "0x003FACF6 < length (content f)"
    and nd: "needed = filter (\<lambda>i. content f ! offset_of i = original_of i) [0, 1, 2, 3]"
    and ad: "applied = filter (\<lambda>i. content f ! offset_of i \<noteq> original_of i
                           \<and> content f ! offset_of i = replacement_of i) [0, 1, 2, 3]"
    by auto
  let ?f2 = "f\<lparr>content := patched needed (content f)\<rparr>"
  have f2: "map_of (fs w2) p = Some ?f2"
    using fs'' assms(5) w' by simp
  from verify_after_patching [OF f2 rw(1) long nd ad] obtain applied2 where
    ve2: "fst (verify_patches p w2) = Return ([], applied2)"
    and sub: "set needed \<subseteq> set applied2" "set applied \<subseteq> set applied2"
    by blast
  from ne sub(1) have ne2: "applied2 \<noteq> []" by auto
  have va2: "fst (validate_file p w2) = Return ()"
    using validate_file_ok [OF f2] rw by simp
  note idle = main_nothing_to_do [OF assms(6) va2 ve2 ne2]
  have "\<exists>needed applied applied2.
          fst (verify_patches p w) = Return (needed, applied) \<and> needed \<noteq> []
          \<and> fst (verify_patches p w2) = Return ([], applied2)
          \<and> set needed \<subseteq> set applied2 \<and> set applied \<subseteq> set applied2"
    using ve ne ve2 sub by blast
  with c idle show ?thesis by simp
qed

theorem second_run_changes_nothing_witness:
  "fst (main original_world) = 0
   \<and> fst (main (snd (main original_world))) = 0
   \<and> fs (snd (main (snd (main original_world)))) = fs (snd (main original_world))
   \<and> stdin (snd (main (snd (main original_world)))) = [''Y'']"
proof -
  let ?w' = "snd (main original_world)"
  have ne: "[0, 1, 2, 3 :: int] \<noteq> []" by simp
  have st: "stdin original_world = ''y'' # [''Y'']" by (simp add: original_world_facts(3))
  from main_success [OF original_world_facts(1,6,7) ne st lower_yes(1)
      original_world_quiet(1) original_world_facts(2) original_world_quiet(2,3)]
  obtain w1 es where m: "main original_world = (0, w1)"
    and s1: "stdin w1 = [''Y'']" "argv w1 = argv original_world"
    and tr: "trace w1 = trace original_world @ es"
    and fe: "fs_events es = Copy ''mnyob99.dll''
          (backup_loop (fs original_world) ''mnyob99.dll'' (''mnyob99.dll'' @ ''.backup'') 1)
          # map (\<lambda>i. Write ''mnyob99.dll'' (offset_of i) (replacement_of i)) [0, 1, 2, 3]"
    by blast
  have "writes_of es = writes_of (fs_events es)" by (simp add: writes_of_fs_events)
  then have "writes_of es \<noteq> []" by (simp add: fe)
  then have wrote: "writes_of (trace ?w') \<noteq> writes_of (trace original_world)"
    by (simp add: m tr writes_of_append)
  have run: "main original_world = (fst (main original_world), ?w')" by simp
  have w1: "?w' = w1" by (simp add: m)
  have av: "argv w1 = [''patch_money_dll.py'', ''mnyob99.dll'']"
    using s1(2) by (simp add: original_world_def)
  have tp2: "target_path ?w' = Some ''mnyob99.dll''"
    unfolding w1 by (simp add: target_path_def av)
  from second_run_changes_nothing [OF original_world_facts(1) original_world_quiet(1) run
      wrote refl tp2]
  show ?thesis by (simp add: m s1)
qed

end
